theory Spec2Isabelle
  imports Complex_Main "HOL-Library.Word"
begin

section \<open>Fuzzy matching of legal parties: the class RemoveRepetitiveNames\<close>

text \<open>
  A shallow embedding of \<^verbatim>\<open>court_party_fuzzy_matching/FuzzyMatching.ipynb\<close>.

  Conventions of the model.
  \<^item> A Python \<^verbatim>\<open>str\<close> is a \<open>string\<close>: a list of 8-bit characters read as the code points
    0..255 (Latin-1), so \<open>length\<close> is Python's \<^verbatim>\<open>len\<close> and \<open>of_char\<close> is \<^verbatim>\<open>ord\<close>.
  \<^item> A pandas data frame is the list of its rows, in row order; a row carries its index
    label. The frame read from the CSV file has the labels 0, 1, 2, ...
  \<^item> The column \<^verbatim>\<open>party_count\<close> of the frame is an int64 column: its cells are
    \<open>64 word\<close>, read as signed numbers by \<open>sint\<close>, and a sum that pandas computes on the
    column wraps around. A cell that the loop reads from a row (\<^verbatim>\<open>iterrows\<close> of a frame with
    columns of several types gives Python objects) is a Python integer.
  \<^item> Python's unbounded integers are \<open>int\<close>. The floating point products and quotients of
    the cluster loop (\<^verbatim>\<open>position * .8\<close>, \<^verbatim>\<open>score >= .8\<close>) are exact rationals here.
  \<^item> A cell of the columns that are only passed through (\<^verbatim>\<open>party_type\<close>,
    \<^verbatim>\<open>party_address\<close>, \<^verbatim>\<open>case_type\<close>, \<^verbatim>\<open>year\<close>) is present in every row read from the
    file; in the frame it is an \<open>option\<close>, because pandas fills the cells of a row that it
    adds by itself with NaN (\<open>None\<close>).
  \<^item> The two library scorers (\<^verbatim>\<open>difflib.SequenceMatcher(None, a, b).ratio()\<close> and
    \<^verbatim>\<open>fuzzywuzzy.fuzz.ratio\<close>) are not part of the repository: the class is modelled over an
    arbitrary pair of them, the record \<open>scorers\<close>.
\<close>

subsection \<open>Data model\<close>

text \<open>The columns the class reads; \<open>'s\<close> and \<open>'y\<close> are the types of the cells of the
  text columns and of the column \<^verbatim>\<open>year\<close>.\<close>

record ('s, 'y) party_columns =
  party_name :: string
  party_type :: 's
  party_address :: 's
  case_type :: 's
  year :: 'y
  party_count :: "64 word"

text \<open>A row of the input table: every cell is present.\<close>

type_synonym party_record = "(string, int) party_columns"

text \<open>A row of \<^verbatim>\<open>self.data\<close>: the columns, with cells that may be NaN, and the row's
  index label.\<close>

record df_row = "(string option, int option) party_columns" +
  index :: nat

text \<open>A row of \<^verbatim>\<open>self.data\<close> once the column \<^verbatim>\<open>position\<close> has been added.\<close>

record blocked_row = df_row +
  position :: int

text \<open>A row of \<^verbatim>\<open>self.output_df\<close>.\<close>

record cluster =
  c_party_name :: string
  c_aliases :: "string list"
  c_party_types :: "string option list"
  c_addresses :: "string option list"
  c_case_types :: "string option list"
  c_years :: "int option list"
  c_party_count :: int

text \<open>The arguments of \<^verbatim>\<open>__init__\<close> other than the file; a dict is an association list
  with distinct keys.\<close>

record init_args =
  arg_abbreviations :: "(string \<times> string) list option"
  arg_stopwords :: "string list option"
  arg_size :: int
  arg_algorithm :: string
  arg_remove_numbers :: bool

text \<open>The two library functions behind \<^verbatim>\<open>self.seq\<close> and \<^verbatim>\<open>self.levenshtein\<close>.\<close>

record scorers =
  seq :: "string \<Rightarrow> string \<Rightarrow> rat"
  levenshtein :: "string \<Rightarrow> string \<Rightarrow> rat"

datatype error = ValueError

subsection \<open>The module-level constants of the notebook\<close>

definition abbreviations :: "(string \<times> string) list" where
  "abbreviations =
    [(''apartment'', ''apt''), (''apartments'', ''apt''), (''company'', ''co''),
     (''furniture'', ''fur''), (''credit'', ''cr''), (''management'', ''mgt''),
     (''financial'', ''fin''), (''services'', ''svc''), (''acceptance'', ''acc''),
     (''corporation'', ''corp''), (''property'', ''prop''), (''recovery'', ''rec''),
     (''holdings'', ''hld''), (''bonding'', ''bnd''), (''collection'', ''col''),
     (''rental'', ''rtl''), (''rentals'', ''rtl''), (''homes'', ''hms''),
     (''group'', ''grp''), (''service'', ''svc''), (''realty'', ''rlt''),
     (''bank'', ''bk''), (''properties'', ''prop''), (''capital'', ''cap''),
     (''place'', ''pl''), (''manor'', ''mn''), (''insurance'', ''ins''),
     (''acquisitions'', ''acq''), (''union'', ''un'')]"

definition stopwords :: "string list" where
  "stopwords = [''llc'', ''inc'', ''pllc'']"

subsection \<open>Python string operations\<close>

text \<open>\<^verbatim>\<open>delimiter.join(items)\<close>.\<close>

fun str_join :: "string \<Rightarrow> string list \<Rightarrow> string" where
  "str_join d [] = []"
| "str_join d [t] = t"
| "str_join d (t # u # ts) = t @ d @ str_join d (u # ts)"

text \<open>\<^verbatim>\<open>s.split(c)\<close> for a separator of one character: never the empty list.\<close>

fun str_split :: "char \<Rightarrow> string \<Rightarrow> string list" where
  "str_split c [] = [[]]"
| "str_split c (x # xs) =
     (if x = c then [] # str_split c xs
      else (case str_split c xs of t # ts \<Rightarrow> (x # t) # ts | [] \<Rightarrow> [[x]]))"

text \<open>The characters that the regular expression \<^verbatim>\<open>\s\<close> matches, among the code points
  below 256: tab to carriage return, the four separators 28..31, the space, NEL and the
  no-break space.\<close>

definition is_space :: "char \<Rightarrow> bool" where
  "is_space c = (let n = (of_char c :: nat)
     in (9 \<le> n \<and> n \<le> 13) \<or> (28 \<le> n \<and> n \<le> 32) \<or> n = 133 \<or> n = 160)"

text \<open>\<^verbatim>\<open>Series.replace('\s+', ' ', regex=True)\<close> on one name: every maximal run of
  whitespace becomes one space.\<close>

function collapse_ws :: "string \<Rightarrow> string" where
  "collapse_ws [] = []"
| "collapse_ws (c # cs) =
     (if is_space c then CHR '' '' # collapse_ws (dropWhile is_space cs)
      else c # collapse_ws cs)"
  by pat_completeness auto
termination
  by (relation "measure length") (auto simp: less_Suc_eq_le length_dropWhile_le)

text \<open>\<^verbatim>\<open>str.lower\<close> on the code points below 256: A..Z and the accented capitals
  192..222 (but the multiplication sign 215) move up by 32.\<close>

definition lower_char :: "char \<Rightarrow> char" where
  "lower_char c = (let n = (of_char c :: nat)
     in if (65 \<le> n \<and> n \<le> 90) \<or> (192 \<le> n \<and> n \<le> 222 \<and> n \<noteq> 215)
        then char_of (n + 32) else c)"

definition lower :: "string \<Rightarrow> string" where
  "lower s = map lower_char s"

subsection \<open>The normalizer\<close>

text \<open>The string \<^verbatim>\<open>punct\<close> of \<^verbatim>\<open>remove_punc_num\<close>; it has no vertical bar.\<close>

definition punct :: "bool \<Rightarrow> string" where
  "punct rn = (if rn then ''1234567890'' else []) @
     ''!'' @ [CHR 0x22] @ ''#$%&'' @ [CHR 0x27] @ ''()*+,-./:;<=>?@['' @ [CHR 0x5C] @
     '']^_`{}~''"

text \<open>\<^verbatim>\<open>s.translate(transtab)\<close>: the characters of \<^verbatim>\<open>punct\<close> are deleted.\<close>

definition translate :: "bool \<Rightarrow> string \<Rightarrow> string" where
  "translate rn s = filter (\<lambda>c. c \<notin> set (punct rn)) s"

text \<open>\<^verbatim>\<open>remove_punc_num\<close> on the column \<^verbatim>\<open>party_name\<close>: the names are joined with a
  vertical bar, translated and split again, and the list is assigned to the column.
  Assigning a list of another length to the column of a frame with rows raises
  ValueError. A frame without rows takes the list as it is (pandas gives the frame the
  index of the list): the split of the empty string is the one part \<open>''\<close>, so the
  frame gets one row, see \<open>set_party_name\<close>.\<close>

definition remove_punc_num :: "bool \<Rightarrow> string list \<Rightarrow> error + string list" where
  "remove_punc_num rn names =
     (let parts = str_split (CHR ''|'') (translate rn (str_join ''|'' names))
      in if names = [] \<or> length parts = length names then Inr parts else Inl ValueError)"

text \<open>\<^verbatim>\<open>remove_stopwords\<close>: the membership test reads the module-level list
  \<^verbatim>\<open>stopwords\<close>, not \<^verbatim>\<open>self.stopwords\<close>.\<close>

definition remove_stopwords :: "string \<Rightarrow> string" where
  "remove_stopwords name =
     str_join '' '' (filter (\<lambda>item. item \<notin> set stopwords) (str_split (CHR '' '') name))"

text \<open>\<^verbatim>\<open>abbreviate\<close>, on \<^verbatim>\<open>self.abbreviations\<close>.\<close>

definition abbreviate :: "(string \<times> string) list \<Rightarrow> string \<Rightarrow> string" where
  "abbreviate abbr name =
     str_join '' '' (map (\<lambda>item. case map_of abbr item of Some a \<Rightarrow> a | None \<Rightarrow> item)
       (str_split (CHR '' '') name))"

text \<open>Python's truth value of an optional list or dict: None and the empty one are false.\<close>

fun truthy :: "'a list option \<Rightarrow> bool" where
  "truthy None = False"
| "truthy (Some xs) = (xs \<noteq> [])"

text \<open>The steps of \<^verbatim>\<open>__init__\<close> after \<^verbatim>\<open>remove_punc_num\<close>, on one name.\<close>

definition whitespace_step :: "string \<Rightarrow> string" where
  "whitespace_step name = collapse_ws name"

definition stopword_step :: "init_args \<Rightarrow> string \<Rightarrow> string" where
  "stopword_step a name = (if truthy (arg_stopwords a) then remove_stopwords name else name)"

definition abbreviation_step :: "init_args \<Rightarrow> string \<Rightarrow> string" where
  "abbreviation_step a name =
     (if truthy (arg_abbreviations a) then abbreviate (the (arg_abbreviations a)) name
      else name)"

text \<open>The preprocessing of the whole column \<^verbatim>\<open>party_name\<close>.\<close>

definition preprocess :: "init_args \<Rightarrow> string list \<Rightarrow> error + string list" where
  "preprocess a names =
     (case remove_punc_num (arg_remove_numbers a) names of
        Inl e \<Rightarrow> Inl e
      | Inr parts \<Rightarrow>
          Inr (map (\<lambda>n. abbreviation_step a (stopword_step a (lower (whitespace_step n))))
                 parts))"

subsection \<open>The blocking key\<close>

text \<open>\<^verbatim>\<open>sum_string\<close>: \<^verbatim>\<open>sum(ord(c) - 64 for c in string)\<close>.\<close>

definition sum_string :: "string \<Rightarrow> int" where
  "sum_string s = sum_list (map (\<lambda>c. int (of_char c) - 64) s)"

text \<open>\<^verbatim>\<open>word_position = word_sum + word_length*33\<close>.\<close>

definition word_position :: "string \<Rightarrow> int" where
  "word_position name = sum_string name + int (length name) * 33"

subsection \<open>Loading and the exact-merge pass\<close>

text \<open>\<^verbatim>\<open>loaded_data[:size]\<close>: a negative bound counts from the end.\<close>

definition slice_to :: "'a list \<Rightarrow> int \<Rightarrow> 'a list" where
  "slice_to xs n = (if 0 \<le> n then take (nat n) xs else take (length xs - nat (- n)) xs)"

definition with_index :: "nat \<Rightarrow> party_record \<Rightarrow> df_row" where
  "with_index i r =
     \<lparr>party_name = party_name r, party_type = Some (party_type r),
      party_address = Some (party_address r), case_type = Some (case_type r),
      year = Some (year r), party_count = party_count r, index = i\<rparr>"

text \<open>The frame of the rows read from the file, labelled 0, 1, 2, ...\<close>

definition read_frame :: "party_record list \<Rightarrow> df_row list" where
  "read_frame recs = map (\<lambda>(i, r). with_index i r) (enumerate 0 recs)"

text \<open>The row that pandas adds to a frame without rows for an assigned name: the cells
  of the other columns are NaN. The group sum of the exact-merge pass skips a NaN, so the
  cell of \<^verbatim>\<open>party_count\<close>, which nothing else reads before that sum replaces it, is 0
  here.\<close>

definition added_row :: "nat \<Rightarrow> string \<Rightarrow> df_row" where
  "added_row i n =
     \<lparr>party_name = n, party_type = None, party_address = None, case_type = None,
      year = None, party_count = 0, index = i\<rparr>"

text \<open>Assigning a list of names to the column \<^verbatim>\<open>party_name\<close>: to a frame with rows a
  list of the frame's length; a frame without rows gets one row for every name.\<close>

definition set_party_name :: "df_row list \<Rightarrow> string list \<Rightarrow> df_row list" where
  "set_party_name rows names =
     (if rows = [] then map (\<lambda>(i, n). added_row i n) (enumerate 0 names)
      else map (\<lambda>(r, n). r\<lparr>party_name := n\<rparr>) (zip rows names))"

text \<open>\<^verbatim>\<open>groupby(['party_name'])['party_count'].transform('sum')\<close>: every row gets the
  sum of the counts of the rows with its name. The sum is computed on the int64 column
  and wraps around, as the addition of \<open>64 word\<close> does.\<close>

definition group_sum :: "df_row list \<Rightarrow> string \<Rightarrow> 64 word" where
  "group_sum rows n = sum_list (map party_count (filter (\<lambda>r. party_name r = n) rows))"

definition transform_sum :: "df_row list \<Rightarrow> df_row list" where
  "transform_sum rows = map (\<lambda>r. r\<lparr>party_count := group_sum rows (party_name r)\<rparr>) rows"

text \<open>\<^verbatim>\<open>drop_duplicates(subset=['party_name'])\<close>: the first row of every name stays.\<close>

function drop_duplicates :: "df_row list \<Rightarrow> df_row list" where
  "drop_duplicates [] = []"
| "drop_duplicates (r # rs) =
     r # drop_duplicates (filter (\<lambda>x. party_name x \<noteq> party_name r) rs)"
  by pat_completeness auto
termination
  by (relation "measure length") (auto simp: less_Suc_eq_le)

subsection \<open>The column position\<close>

definition with_position :: "df_row \<Rightarrow> int \<Rightarrow> blocked_row" where
  "with_position r p =
     \<lparr>party_name = party_name r, party_type = party_type r,
      party_address = party_address r, case_type = case_type r, year = year r,
      party_count = party_count r, index = index r, position = p\<rparr>"

definition add_position :: "df_row list \<Rightarrow> blocked_row list" where
  "add_position rows = map (\<lambda>r. with_position r (word_position (party_name r))) rows"

subsection \<open>The cluster loop\<close>

text \<open>The variables that both loops update.\<close>

record shared =
  removed :: "nat list"
  fuzzy_match_count :: int

text \<open>The state of the outer loop: the seven output lists grow together, one entry
  for every cluster, and are zipped into the output frame.\<close>

record outer_state = shared +
  output_rows :: "cluster list"

text \<open>The state of the inner loop: the lists of the cluster under construction, and
  its count, a Python integer.\<close>

record inner_state = shared +
  party_aliases :: "string list"
  party_party_types :: "string option list"
  party_addresses :: "string option list"
  party_case_types :: "string option list"
  party_years :: "int option list"
  party_party_counts :: int

text \<open>\<^verbatim>\<open>if x not in xs: xs.append(x)\<close>.\<close>

definition append_new :: "'a \<Rightarrow> 'a list \<Rightarrow> 'a list" where
  "append_new x xs = (if x \<notin> set xs then xs @ [x] else xs)"

text \<open>The rows of \<^verbatim>\<open>test_set\<close>: the position lies between \<^verbatim>\<open>position * .8\<close> and
  \<^verbatim>\<open>position * 1.2\<close> of the anchor.\<close>

definition in_window :: "int \<Rightarrow> int \<Rightarrow> bool" where
  "in_window p q =
     ((of_int q :: rat) \<le> of_int p * (12 / 10) \<and> (of_int q :: rat) \<ge> of_int p * (8 / 10))"

definition test_set :: "blocked_row list \<Rightarrow> blocked_row \<Rightarrow> blocked_row list" where
  "test_set data row = filter (\<lambda>r. in_window (position row) (position r)) data"

text \<open>The dispatch on \<^verbatim>\<open>self.algorithm\<close>.\<close>

definition score :: "scorers \<Rightarrow> string \<Rightarrow> string \<Rightarrow> string \<Rightarrow> rat" where
  "score L alg a b =
     (if alg = ''seq'' then seq L a b
      else if alg = ''levenshtein'' then levenshtein L a b / 100
      else seq L a b)"

text \<open>The body of the inner loop, for the anchor \<open>row\<close> and the candidate \<open>row_2\<close>.\<close>

definition inner_body ::
  "scorers \<Rightarrow> string \<Rightarrow> blocked_row \<Rightarrow> blocked_row \<Rightarrow> inner_state \<Rightarrow> inner_state" where
  "inner_body L alg row row_2 s =
     (if index row_2 \<notin> set (removed s) then
        (if score L alg (party_name row) (party_name row_2) \<ge> 8 / 10 then
           s\<lparr>fuzzy_match_count := fuzzy_match_count s + 1,
             removed := removed s @ [index row_2],
             party_aliases := append_new (party_name row_2) (party_aliases s),
             party_party_types := append_new (party_type row_2) (party_party_types s),
             party_addresses := append_new (party_address row_2) (party_addresses s),
             party_case_types := append_new (case_type row_2) (party_case_types s),
             party_years := append_new (year row_2) (party_years s),
             party_party_counts := party_party_counts s + sint (party_count row_2)\<rparr>
         else s)
      else s)"

text \<open>The state in which the inner loop starts for the anchor \<open>row\<close>.\<close>

definition inner_init :: "blocked_row \<Rightarrow> outer_state \<Rightarrow> inner_state" where
  "inner_init row s =
     \<lparr>removed = removed s @ [index row], fuzzy_match_count = fuzzy_match_count s,
      party_aliases = [], party_party_types = [party_type row],
      party_addresses = [party_address row], party_case_types = [case_type row],
      party_years = [year row], party_party_counts = sint (party_count row)\<rparr>"

definition inner_loop ::
  "scorers \<Rightarrow> string \<Rightarrow> blocked_row list \<Rightarrow> blocked_row \<Rightarrow> outer_state \<Rightarrow> inner_state" where
  "inner_loop L alg data row s =
     fold (inner_body L alg row) (test_set data row) (inner_init row s)"

definition emit :: "blocked_row \<Rightarrow> inner_state \<Rightarrow> cluster" where
  "emit row t =
     \<lparr>c_party_name = party_name row, c_aliases = party_aliases t,
      c_party_types = party_party_types t, c_addresses = party_addresses t,
      c_case_types = party_case_types t, c_years = party_years t,
      c_party_count = party_party_counts t\<rparr>"

text \<open>The body of the outer loop.\<close>

definition outer_body ::
  "scorers \<Rightarrow> string \<Rightarrow> blocked_row list \<Rightarrow> blocked_row \<Rightarrow> outer_state \<Rightarrow> outer_state" where
  "outer_body L alg data row s =
     (if index row \<notin> set (removed s) then
        (let t = inner_loop L alg data row s
         in \<lparr>removed = removed t, fuzzy_match_count = fuzzy_match_count t,
             output_rows = output_rows s @ [emit row t]\<rparr>)
      else s)"

definition cluster_loop :: "scorers \<Rightarrow> string \<Rightarrow> blocked_row list \<Rightarrow> outer_state" where
  "cluster_loop L alg data =
     fold (outer_body L alg data) data
       \<lparr>removed = [], fuzzy_match_count = 0, output_rows = []\<rparr>"

subsection \<open>The constructor\<close>

text \<open>What \<^verbatim>\<open>__init__\<close> leaves behind: the attributes of the object, and the final value
  of its local list \<^verbatim>\<open>removed\<close>.\<close>

record matcher =
  self_data :: "blocked_row list"
  self_dropped_duplicates_count :: int
  self_fuzzy_match_count :: int
  self_output_df :: "cluster list"
  final_removed :: "nat list"

text \<open>The frame after the exact-merge pass, from the frame with the preprocessed
  names.\<close>

definition exact_merge :: "df_row list \<Rightarrow> df_row list" where
  "exact_merge rows = drop_duplicates (transform_sum rows)"

definition RemoveRepetitiveNames ::
  "scorers \<Rightarrow> init_args \<Rightarrow> party_record list \<Rightarrow> error + matcher" where
  "RemoveRepetitiveNames L a loaded_data =
     (let frame = read_frame (slice_to loaded_data (arg_size a))
      in case preprocess a (map party_name frame) of
           Inl e \<Rightarrow> Inl e
         | Inr names \<Rightarrow>
             (let merged = exact_merge (set_party_name frame names);
                  data = add_position merged;
                  s = cluster_loop L (arg_algorithm a) data
              in Inr \<lparr>self_data = data,
                      self_dropped_duplicates_count = arg_size a - int (length merged),
                      self_fuzzy_match_count = fuzzy_match_count s,
                      self_output_df = output_rows s,
                      final_removed = removed s\<rparr>))"

subsection \<open>The edit ratio\<close>

text \<open>Modelled from the spec: \<^verbatim>\<open>fuzz.ratio\<close> of the package fuzzywuzzy, which
  \<^verbatim>\<open>self.levenshtein\<close> returns, is not in the repository. The spec describes it as the
  minimum number of single-character insertions, deletions and substitutions between the
  two strings, normalised by \<^verbatim>\<open>1 - edit_distance / max(len_a, len_b)\<close> and given on a
  scale from 0 to 100.\<close>

fun edit_distance :: "string \<Rightarrow> string \<Rightarrow> nat" where
  "edit_distance [] ys = length ys"
| "edit_distance (x # xs) [] = Suc (length xs)"
| "edit_distance (x # xs) (y # ys) =
     min (min (edit_distance xs (y # ys) + 1) (edit_distance (x # xs) ys + 1))
         (edit_distance xs ys + (if x = y then 0 else 1))"

definition edit_ratio :: "string \<Rightarrow> string \<Rightarrow> rat" where
  "edit_ratio a b =
     100 * (1 - of_nat (edit_distance a b) / of_nat (max (length a) (length b)))"

subsection \<open>The blocking key as the spec words it\<close>

text \<open>The value of a character in the spec's \<open>letter_sum\<close>: A = 1, ..., Z = 26 for a
  letter of either case, 0 for any other character.\<close>

definition spec_letter_value :: "char \<Rightarrow> int" where
  "spec_letter_value c = (let n = (of_char c :: nat)
     in if 65 \<le> n \<and> n \<le> 90 then int n - 64
        else if 97 \<le> n \<and> n \<le> 122 then int n - 96
        else 0)"

definition spec_block_key :: "string \<Rightarrow> int" where
  "spec_block_key name = sum_list (map spec_letter_value name) + int (length name) * 33"

subsection \<open>Notions used in the statements\<close>

text \<open>The steps of the normalizer on one name, in the order of \<^verbatim>\<open>__init__\<close>.\<close>

definition normalize :: "init_args \<Rightarrow> string \<Rightarrow> string" where
  "normalize a n =
     abbreviation_step a (stopword_step a (lower (whitespace_step
       (translate (arg_remove_numbers a) n))))"

text \<open>The tables on which \<^verbatim>\<open>remove_punc_num\<close> does not raise: no name among the rows
  that are processed has a vertical bar.\<close>

definition accepted :: "init_args \<Rightarrow> party_record list \<Rightarrow> bool" where
  "accepted a loaded_data \<longleftrightarrow>
     (\<forall>r \<in> set (slice_to loaded_data (arg_size a)). CHR ''|'' \<notin> set (party_name r))"

text \<open>The frame with the normalized names, before the exact-merge pass.\<close>

definition normalized_frame :: "init_args \<Rightarrow> party_record list \<Rightarrow> df_row list" where
  "normalized_frame a loaded_data =
     (let frame = read_frame (slice_to loaded_data (arg_size a))
      in case preprocess a (map party_name frame) of
           Inl e \<Rightarrow> []
         | Inr names \<Rightarrow> set_party_name frame names)"

text \<open>The sum of the counts of the rows with a name, as an integer, and the frames in
  which that sum is an int64 for every name.\<close>

definition group_total :: "df_row list \<Rightarrow> string \<Rightarrow> int" where
  "group_total rows n =
     sum_list (map (\<lambda>r. sint (party_count r)) (filter (\<lambda>r. party_name r = n) rows))"

definition no_overflow :: "df_row list \<Rightarrow> bool" where
  "no_overflow rows \<longleftrightarrow>
     (\<forall>r \<in> set rows. - (2 ^ 63) \<le> group_total rows (party_name r) \<and>
                       group_total rows (party_name r) < 2 ^ 63)"

text \<open>The sum, as an integer, of the counts of the rows whose label is not in
  \<^verbatim>\<open>removed\<close>.\<close>

definition unconsumed_count :: "blocked_row list \<Rightarrow> nat list \<Rightarrow> int" where
  "unconsumed_count data rem =
     sum_list (map (\<lambda>r. sint (party_count r)) (filter (\<lambda>r. index r \<notin> set rem) data))"

text \<open>No label was appended to \<^verbatim>\<open>removed\<close> twice, and every label is one of the frame.\<close>

definition consumed_once :: "blocked_row list \<Rightarrow> nat list \<Rightarrow> bool" where
  "consumed_once data rem \<longleftrightarrow> distinct rem \<and> set rem \<subseteq> index ` set data"

text \<open>The names that a row of the output frame stands for: its name and its aliases.\<close>

definition cluster_names :: "cluster \<Rightarrow> string list" where
  "cluster_names c = c_party_name c # c_aliases c"

text \<open>The name of the row with a given label.\<close>

definition name_of_label :: "blocked_row list \<Rightarrow> nat \<Rightarrow> string option" where
  "name_of_label data = map_of (map (\<lambda>r. (index r, party_name r)) data)"

text \<open>The default values of the parameters of \<^verbatim>\<open>__init__\<close>.\<close>

definition default_args :: init_args where
  "default_args =
     \<lparr>arg_abbreviations = None, arg_stopwords = None, arg_size = 10000,
      arg_algorithm = ''seq'', arg_remove_numbers = True\<rparr>"

text \<open>The configuration of the spec's scenario A, and a table and a pair of scorers to
  run it on.\<close>

definition scenario_args :: init_args where
  "scenario_args =
     \<lparr>arg_abbreviations = Some [(''apartments'', ''apt'')], arg_stopwords = Some [''llc''],
      arg_size = 10000, arg_algorithm = ''levenshtein'', arg_remove_numbers = True\<rparr>"

definition scenario_table :: "party_record list" where
  "scenario_table =
     [\<lparr>party_name = ''ABC Apartments LLC'', party_type = ''plaintiff'',
       party_address = ''1 Main St'', case_type = ''eviction'', year = 2020,
       party_count = 3\<rparr>,
      \<lparr>party_name = ''ABC Apts LLC'', party_type = ''plaintiff'',
       party_address = ''1 Main Street'', case_type = ''eviction'', year = 2019,
       party_count = 4\<rparr>]"

text \<open>A table with two spellings of one party, and a table on which the sum of a group
  leaves the int64 range: two rows of one normalized name with the count \<open>2 ^ 62\<close>.\<close>

definition spellings_table :: "party_record list" where
  "spellings_table =
     [\<lparr>party_name = ''Smith'', party_type = ''plaintiff'', party_address = ''1 Main St'',
       case_type = ''eviction'', year = 2020, party_count = 3\<rparr>,
      \<lparr>party_name = ''Jones'', party_type = ''defendant'', party_address = ''2 Oak St'',
       case_type = ''eviction'', year = 2020, party_count = 5\<rparr>,
      \<lparr>party_name = ''smith'', party_type = ''plaintiff'', party_address = ''1 Main St'',
       case_type = ''debt'', year = 2019, party_count = 4\<rparr>]"

definition overflow_table :: "party_record list" where
  "overflow_table =
     [\<lparr>party_name = ''smith'', party_type = ''plaintiff'', party_address = ''1 Main St'',
       case_type = ''eviction'', year = 2020, party_count = 4611686018427387904\<rparr>,
      \<lparr>party_name = ''Smith'', party_type = ''plaintiff'', party_address = ''1 Main St'',
       case_type = ''eviction'', year = 2020, party_count = 4611686018427387904\<rparr>]"

definition scenario_scorers :: scorers where
  "scenario_scorers = \<lparr>seq = (\<lambda>a b. if a = b then 1 else 0), levenshtein = edit_ratio\<rparr>"

text \<open>The configuration of the notebook's test A.\<close>

definition test_a_args :: init_args where
  "test_a_args =
     \<lparr>arg_abbreviations = Some abbreviations, arg_stopwords = Some stopwords,
      arg_size = 10000, arg_algorithm = ''levenshtein'', arg_remove_numbers = True\<rparr>"

text \<open>Every whitespace character of the string is a space, and no space is followed by
  whitespace.\<close>

fun single_spaced :: "string \<Rightarrow> bool" where
  "single_spaced [] = True"
| "single_spaced [c] = (is_space c \<longrightarrow> c = CHR '' '')"
| "single_spaced (c # d # cs) =
     ((is_space c \<longrightarrow> c = CHR '' '' \<and> \<not> is_space d) \<and> single_spaced (d # cs))"

text \<open>A token that no step of the normalizer changes: no whitespace, no character of
  \<^verbatim>\<open>punct\<close>, no capital, no vertical bar.\<close>

definition clean_token :: "bool \<Rightarrow> string \<Rightarrow> bool" where
  "clean_token rn t \<longleftrightarrow>
     (\<forall>c\<in>set t. \<not> is_space c \<and> c \<notin> set (punct rn) \<and> lower_char c = c \<and> c \<noteq> CHR ''|'')"

text \<open>A name that the first three steps leave unchanged.\<close>

definition clean :: "bool \<Rightarrow> string \<Rightarrow> bool" where
  "clean rn s \<longleftrightarrow>
     (\<forall>c\<in>set s. c \<notin> set (punct rn) \<and> lower_char c = c \<and> c \<noteq> CHR ''|'') \<and> single_spaced s"

text \<open>An abbreviation that the normalizer would leave unchanged as a token of a name: it
  is not empty, it is a clean token, it is not dropped as a stopword and it is not itself
  a key of the dict.\<close>

definition stable_token :: "init_args \<Rightarrow> string \<Rightarrow> bool" where
  "stable_token a v \<longleftrightarrow>
     v \<noteq> [] \<and> clean_token (arg_remove_numbers a) v \<and>
     (truthy (arg_stopwords a) \<longrightarrow> v \<notin> set stopwords) \<and>
     (case arg_abbreviations a of None \<Rightarrow> True | Some abbr \<Rightarrow> map_of abbr v = None)"

definition stable_abbreviations :: "init_args \<Rightarrow> bool" where
  "stable_abbreviations a \<longleftrightarrow>
     (case arg_abbreviations a of None \<Rightarrow> True
      | Some abbr \<Rightarrow> list_all (\<lambda>(k, v). stable_token a v) abbr)"

text \<open>In a list of tokens, the empty token occurs at the first and the last place only.\<close>

definition ends_only :: "string list \<Rightarrow> bool" where
  "ends_only ts \<longleftrightarrow> (\<forall>ys zs. ts = ys @ [] # zs \<longrightarrow> ys = [] \<or> zs = [])"

section \<open>Lemmas\<close>

subsection \<open>Loop invariants in general\<close>

lemma fold_invariant:
  assumes "P s" and "\<And>x s. x \<in> set xs \<Longrightarrow> P s \<Longrightarrow> P (f x s)"
  shows "P (fold f xs s)"
  using assms by (induction xs arbitrary: s) auto

subsection \<open>Frames and the exact-merge pass\<close>

lemma index_with_index [simp]: "index (with_index i r) = i"
  and party_count_with_index [simp]: "party_count (with_index i r) = party_count r"
  and party_name_with_index [simp]: "party_name (with_index i r) = party_name r"
  by (simp_all add: with_index_def)

lemma map_index_read_frame: "map index (read_frame recs) = [0..<length recs]"
proof -
  have "map index (read_frame recs) = map fst (enumerate 0 recs)"
    by (simp add: read_frame_def comp_def case_prod_unfold)
  then show ?thesis by simp
qed

lemma map_snd_enumerate_fun: "map (\<lambda>x. f (snd x)) (enumerate n xs) = map f xs"
  by (induction xs arbitrary: n) auto

lemma map_party_count_read_frame: "map party_count (read_frame recs) = map party_count recs"
  by (simp add: read_frame_def comp_def case_prod_unfold map_snd_enumerate_fun)

lemma map_party_name_read_frame: "map party_name (read_frame recs) = map party_name recs"
  by (simp add: read_frame_def comp_def case_prod_unfold map_snd_enumerate_fun)

lemma set_party_name_columns:
  assumes "rows \<noteq> []" "length names = length rows"
  shows "map index (set_party_name rows names) = map index rows"
    and "map party_count (set_party_name rows names) = map party_count rows"
    and "map party_name (set_party_name rows names) = names"
proof -
  have eq: "set_party_name rows names = map (\<lambda>(r, n). r\<lparr>party_name := n\<rparr>) (zip rows names)"
    using assms(1) by (simp add: set_party_name_def)
  show "map index (set_party_name rows names) = map index rows"
    unfolding eq using assms(2) by (induction rows names rule: list_induct2') simp_all
  show "map party_count (set_party_name rows names) = map party_count rows"
    unfolding eq using assms(2) by (induction rows names rule: list_induct2') simp_all
  show "map party_name (set_party_name rows names) = names"
    unfolding eq using assms(2) by (induction rows names rule: list_induct2') simp_all
qed

lemma map_fst_enumerate_fun: "map (\<lambda>x. f (fst x)) (enumerate n xs) = map f [n..<n + length xs]"
proof -
  have "map (\<lambda>x. f (fst x)) (enumerate n xs) = map f (map fst (enumerate n xs))"
    unfolding map_map by (simp add: comp_def)
  also have "\<dots> = map f [n..<n + length xs]"
    by (simp only: map_fst_enumerate)
  finally show ?thesis .
qed

lemma set_party_name_Nil:
  shows "map index (set_party_name [] names) = [0..<length names]"
    and "map party_name (set_party_name [] names) = names"
    and "sum_list (map party_count (set_party_name [] names)) = 0"
    and "sum_list (map (\<lambda>r. sint (party_count r)) (set_party_name [] names)) = 0"
    and "\<forall>r\<in>set (set_party_name [] names). party_count r = 0"
proof -
  have eq: "set_party_name [] names = map (\<lambda>x. added_row (fst x) (snd x)) (enumerate 0 names)"
    by (simp add: set_party_name_def case_prod_unfold)
  show "map index (set_party_name [] names) = [0..<length names]"
    using map_fst_enumerate_fun [of "\<lambda>i. i" 0 names]
    by (simp add: eq comp_def added_row_def)
  show "map party_name (set_party_name [] names) = names"
    using map_snd_enumerate_fun [of "\<lambda>n. n" 0 names]
    by (simp add: eq comp_def added_row_def)
  show zero: "\<forall>r\<in>set (set_party_name [] names). party_count r = 0"
    by (auto simp: eq added_row_def)
  have aux: "(\<forall>r\<in>set rs. party_count r = 0) \<Longrightarrow>
      sum_list (map party_count rs) = 0 \<and> sum_list (map (\<lambda>r. sint (party_count r)) rs) = 0"
    for rs :: "df_row list"
    by (induction rs) simp_all
  show "sum_list (map party_count (set_party_name [] names)) = 0"
    using aux [OF zero] by blast
  show "sum_list (map (\<lambda>r. sint (party_count r)) (set_party_name [] names)) = 0"
    using aux [OF zero] by blast
qed

lemma transform_sum_columns:
  "map index (transform_sum rows) = map index rows"
  "map party_name (transform_sum rows) = map party_name rows"
  by (simp_all add: transform_sum_def)

lemma set_drop_duplicates: "set (drop_duplicates rows) \<subseteq> set rows"
  by (induction rows rule: drop_duplicates.induct) auto

lemma distinct_index_drop_duplicates:
  "distinct (map index rows) \<Longrightarrow> distinct (map index (drop_duplicates rows))"
proof (induction rows rule: drop_duplicates.induct)
  case 1
  then show ?case by simp
next
  case (2 r rs)
  let ?rs = "filter (\<lambda>x. party_name x \<noteq> party_name r) rs"
  have "distinct (map index ?rs)" using 2(2) by (simp add: distinct_map_filter)
  then have "distinct (map index (drop_duplicates ?rs))" by (rule 2(1))
  moreover have "index r \<notin> index ` set (drop_duplicates ?rs)"
    using 2(2) set_drop_duplicates [of ?rs] by auto
  ultimately show ?case by simp
qed

lemma distinct_party_name_drop_duplicates:
  "distinct (map party_name (drop_duplicates rows))"
proof (induction rows rule: drop_duplicates.induct)
  case 1
  then show ?case by simp
next
  case (2 r rs)
  let ?rs = "filter (\<lambda>x. party_name x \<noteq> party_name r) rs"
  have "party_name r \<notin> party_name ` set (drop_duplicates ?rs)"
    using set_drop_duplicates [of ?rs] by auto
  with 2 show ?case by simp
qed

lemma sum_list_filter_disj:
  fixes f :: "'a \<Rightarrow> 'b::comm_monoid_add"
  assumes "\<And>x. \<not> (P x \<and> Q x)"
  shows "sum_list (map f (filter (\<lambda>x. P x \<or> Q x) xs)) =
         sum_list (map f (filter P xs)) + sum_list (map f (filter Q xs))"
  using assms by (induction xs) (auto simp: add_ac)

lemma drop_duplicates_map:
  assumes "\<And>r. party_name (u r) = party_name r"
  shows "drop_duplicates (map u rows) = map u (drop_duplicates rows)"
proof (induction rows rule: drop_duplicates.induct)
  case 1
  then show ?case by simp
next
  case (2 r rs)
  have "filter (\<lambda>x. party_name x \<noteq> party_name (u r)) (map u rs) =
        map u (filter (\<lambda>x. party_name x \<noteq> party_name r) rs)"
    by (simp add: filter_map comp_def assms)
  then show ?case using 2 by simp
qed

lemma drop_duplicates_groups:
  fixes f :: "df_row \<Rightarrow> 'b::comm_monoid_add"
  shows "sum_list (map (\<lambda>r. sum_list (map f (filter (\<lambda>x. party_name x = party_name r) R)))
            (drop_duplicates rows)) =
         sum_list (map f (filter (\<lambda>x. party_name x \<in> party_name ` set rows) R))"
proof (induction rows rule: drop_duplicates.induct)
  case 1
  then show ?case by simp
next
  case (2 r rs)
  let ?G = "\<lambda>r. sum_list (map f (filter (\<lambda>x. party_name x = party_name r) R))"
  let ?rs = "filter (\<lambda>x. party_name x \<noteq> party_name r) rs"
  have names: "party_name ` set (r # rs) = insert (party_name r) (party_name ` set ?rs)"
    by auto
  have "sum_list (map ?G (drop_duplicates (r # rs))) =
        ?G r + sum_list (map ?G (drop_duplicates ?rs))"
    by simp
  also have "\<dots> = ?G r +
        sum_list (map f (filter (\<lambda>x. party_name x \<in> party_name ` set ?rs) R))"
    using 2 by simp
  also have "\<dots> = sum_list (map f
        (filter (\<lambda>x. party_name x = party_name r \<or> party_name x \<in> party_name ` set ?rs) R))"
    by (rule sum_list_filter_disj [symmetric]) auto
  also have "\<dots> = sum_list (map f (filter (\<lambda>x. party_name x \<in> party_name ` set (r # rs)) R))"
    unfolding names by simp
  finally show ?case .
qed

lemma exact_merge_eq:
  "exact_merge rows =
     map (\<lambda>r. r\<lparr>party_count := group_sum rows (party_name r)\<rparr>) (drop_duplicates rows)"
  unfolding exact_merge_def transform_sum_def by (rule drop_duplicates_map) simp

lemma filter_own_names: "filter (\<lambda>x. party_name x \<in> party_name ` set rows) rows = rows"
  by (simp add: filter_id_conv)

lemma exact_merge_conserves:
  "sum_list (map party_count (exact_merge rows)) = sum_list (map party_count rows)"
proof -
  have "sum_list (map party_count (exact_merge rows)) =
        sum_list (map (\<lambda>r. group_sum rows (party_name r)) (drop_duplicates rows))"
    by (simp add: exact_merge_eq comp_def)
  also have "\<dots> = sum_list (map party_count rows)"
    using drop_duplicates_groups [of party_count rows rows]
    by (simp add: group_sum_def filter_own_names)
  finally show ?thesis .
qed

lemma word_of_int_sum_sint:
  "(word_of_int (sum_list (map (\<lambda>x. sint (f x)) xs)) :: 64 word) = sum_list (map f xs)"
  by (induction xs) simp_all

lemma sint_group_sum:
  assumes "- (2 ^ 63) \<le> group_total rows n" "group_total rows n < 2 ^ 63"
  shows "sint (group_sum rows n) = group_total rows n"
proof -
  have "group_sum rows n = word_of_int (group_total rows n)"
    unfolding group_sum_def group_total_def by (rule word_of_int_sum_sint [symmetric])
  then have "sint (group_sum rows n) = signed_take_bit 63 (group_total rows n)"
    by (simp add: sint_sbintrunc')
  then show ?thesis using assms by (simp add: signed_take_bit_int_eq_self)
qed

lemma exact_merge_conserves_int:
  assumes "no_overflow rows"
  shows "sum_list (map (\<lambda>r. sint (party_count r)) (exact_merge rows)) =
         sum_list (map (\<lambda>r. sint (party_count r)) rows)"
proof -
  have "sum_list (map (\<lambda>r. sint (party_count r)) (exact_merge rows)) =
        sum_list (map (\<lambda>r. sint (group_sum rows (party_name r))) (drop_duplicates rows))"
    by (simp add: exact_merge_eq comp_def)
  also have "\<dots> = sum_list (map (\<lambda>r. group_total rows (party_name r)) (drop_duplicates rows))"
  proof (rule arg_cong [where f = sum_list], rule map_cong [OF refl])
    fix r assume "r \<in> set (drop_duplicates rows)"
    then have "r \<in> set rows" using set_drop_duplicates by blast
    then show "sint (group_sum rows (party_name r)) = group_total rows (party_name r)"
      using assms unfolding no_overflow_def by (intro sint_group_sum) blast+
  qed
  also have "\<dots> = sum_list (map (\<lambda>r. sint (party_count r)) rows)"
    using drop_duplicates_groups [of "\<lambda>r. sint (party_count r)" rows rows]
    by (simp add: group_total_def filter_own_names)
  finally show ?thesis .
qed

lemma sum_list_filter_bounds:
  fixes f :: "'a \<Rightarrow> int"
  assumes "\<forall>x\<in>set xs. 0 \<le> f x"
  shows "0 \<le> sum_list (map f (filter P xs))"
    and "sum_list (map f (filter P xs)) \<le> sum_list (map f xs)"
  using assms by (induction xs) auto

lemma nonneg_no_overflow:
  assumes "\<forall>r\<in>set rows. 0 \<le> sint (party_count r)"
    and "sum_list (map (\<lambda>r. sint (party_count r)) rows) < 2 ^ 63"
  shows "no_overflow rows"
  unfolding no_overflow_def group_total_def
proof
  fix r assume "r \<in> set rows"
  let ?g = "sum_list (map (\<lambda>r. sint (party_count r))
              (filter (\<lambda>x. party_name x = party_name r) rows))"
  have "0 \<le> ?g" "?g \<le> sum_list (map (\<lambda>r. sint (party_count r)) rows)"
    using sum_list_filter_bounds [of rows "\<lambda>r. sint (party_count r)"] assms(1) by blast+
  then show "- (2 ^ 63) \<le> ?g \<and> ?g < 2 ^ 63" using assms(2) by simp
qed

lemma add_position_columns:
  "map index (add_position rows) = map index rows"
  "map party_name (add_position rows) = map party_name rows"
  "map party_count (add_position rows) = map party_count rows"
  by (simp_all add: add_position_def with_position_def)

subsection \<open>The cluster loop conserves the counts\<close>

lemma inner_body_cases:
  obtains (skip) "inner_body L alg row x t = t"
  | (merge) "index x \<notin> set (removed t)"
      "score L alg (party_name row) (party_name x) \<ge> 8 / 10"
      "removed (inner_body L alg row x t) = removed t @ [index x]"
      "fuzzy_match_count (inner_body L alg row x t) = fuzzy_match_count t + 1"
      "party_aliases (inner_body L alg row x t) = append_new (party_name x) (party_aliases t)"
      "party_party_counts (inner_body L alg row x t) = party_party_counts t + sint (party_count x)"
  by (cases "index x \<notin> set (removed t) \<and> score L alg (party_name row) (party_name x) \<ge> 8 / 10")
    (auto simp: inner_body_def)

lemma unconsumed_count_append:
  assumes "distinct (map index data)" "x \<in> set data" "index x \<notin> set rem"
  shows "unconsumed_count data (rem @ [index x]) + sint (party_count x) = unconsumed_count data rem"
  using assms
proof (induction data)
  case Nil
  then show ?case by simp
next
  case (Cons d data)
  show ?case
  proof (cases "d = x")
    case True
    have "\<forall>r\<in>set data. index r \<noteq> index x"
      using Cons.prems(1) True by (auto simp: image_iff)
    then have "filter (\<lambda>r. index r \<notin> set (rem @ [index x])) data = filter (\<lambda>r. index r \<notin> set rem) data"
      by (intro filter_cong) auto
    then show ?thesis using True Cons.prems by (simp add: unconsumed_count_def)
  next
    case False
    then have "x \<in> set data" "index d \<noteq> index x" using Cons.prems by auto
    then show ?thesis using Cons by (simp add: unconsumed_count_def)
  qed
qed

lemma inner_body_mass:
  assumes "distinct (map index data)" "x \<in> set data"
  shows "party_party_counts (inner_body L alg row x t) +
           unconsumed_count data (removed (inner_body L alg row x t)) =
         party_party_counts t + unconsumed_count data (removed t)"
proof (cases rule: inner_body_cases [of L alg row x t])
  case skip
  then show ?thesis by simp
next
  case merge
  then show ?thesis using unconsumed_count_append [OF assms, of "removed t"] by simp
qed

lemma inner_loop_mass:
  assumes "distinct (map index data)" "row \<in> set data" "index row \<notin> set (removed s)"
  shows "party_party_counts (inner_loop L alg data row s) +
           unconsumed_count data (removed (inner_loop L alg data row s)) =
         unconsumed_count data (removed s)"
proof -
  let ?P = "\<lambda>t. party_party_counts t + unconsumed_count data (removed t) =
                 unconsumed_count data (removed s)"
  have "?P (inner_init row s)"
    using unconsumed_count_append [OF assms] by (simp add: inner_init_def)
  then have "?P (fold (inner_body L alg row) (test_set data row) (inner_init row s))"
  proof (rule fold_invariant)
    fix x and t :: inner_state assume "x \<in> set (test_set data row)" and "?P t"
    then show "?P (inner_body L alg row x t)"
      using inner_body_mass [OF assms(1), of x L alg row t] by (simp add: test_set_def)
  qed
  then show ?thesis by (simp add: inner_loop_def)
qed

lemma outer_body_mass:
  assumes "distinct (map index data)" "row \<in> set data"
  shows "sum_list (map c_party_count (output_rows (outer_body L alg data row s))) +
           unconsumed_count data (removed (outer_body L alg data row s)) =
         sum_list (map c_party_count (output_rows s)) + unconsumed_count data (removed s)"
proof (cases "index row \<in> set (removed s)")
  case True
  then show ?thesis by (simp add: outer_body_def)
next
  case False
  then show ?thesis
    using inner_loop_mass [OF assms False, of L alg]
    by (simp add: outer_body_def Let_def emit_def)
qed

lemma inner_body_removed_mono: "set (removed t) \<subseteq> set (removed (inner_body L alg row x t))"
  by (cases rule: inner_body_cases [of L alg row x t]) auto

lemma inner_loop_removed_mono:
  "insert (index row) (set (removed s)) \<subseteq> set (removed (inner_loop L alg data row s))"
proof -
  let ?P = "\<lambda>t. insert (index row) (set (removed s)) \<subseteq> set (removed t)"
  have "?P (inner_init row s)" by (simp add: inner_init_def)
  then have "?P (fold (inner_body L alg row) (test_set data row) (inner_init row s))"
  proof (rule fold_invariant)
    fix x and t :: inner_state assume "?P t"
    then show "?P (inner_body L alg row x t)"
      using inner_body_removed_mono [of t L alg row x] by blast
  qed
  then show ?thesis by (simp add: inner_loop_def)
qed

lemma outer_body_removed_mono: "set (removed s) \<subseteq> set (removed (outer_body L alg data row s))"
  using inner_loop_removed_mono [of row s L alg data] by (auto simp: outer_body_def Let_def)

lemma outer_body_consumes: "index row \<in> set (removed (outer_body L alg data row s))"
  using inner_loop_removed_mono [of row s L alg data] by (auto simp: outer_body_def Let_def)

lemma outer_fold_consumes:
  "set (removed s) \<union> index ` set xs \<subseteq> set (removed (fold (outer_body L alg data) xs s))"
proof (induction xs arbitrary: s)
  case Nil
  then show ?case by simp
next
  case (Cons x xs)
  have "set (removed s) \<union> {index x} \<subseteq> set (removed (outer_body L alg data x s))"
    using outer_body_removed_mono [of s L alg data x] outer_body_consumes [of x L alg data s]
    by auto
  with Cons.IH [of "outer_body L alg data x s"] show ?case by auto
qed

lemma cluster_loop_mass:
  assumes "distinct (map index data)"
  shows "sum_list (map c_party_count (output_rows (cluster_loop L alg data))) =
         sum_list (map (\<lambda>r. sint (party_count r)) data)"
proof -
  let ?K = "\<lambda>s. sum_list (map c_party_count (output_rows s)) + unconsumed_count data (removed s)
                = sum_list (map (\<lambda>r. sint (party_count r)) data)"
  let ?s0 = "\<lparr>removed = [], fuzzy_match_count = 0, output_rows = []\<rparr>"
  have "?K ?s0" by (simp add: unconsumed_count_def)
  then have "?K (fold (outer_body L alg data) data ?s0)"
  proof (rule fold_invariant)
    fix x and s :: outer_state assume "x \<in> set data" and "?K s"
    then show "?K (outer_body L alg data x s)"
      using outer_body_mass [OF assms, of x L alg s] by simp
  qed
  moreover have "unconsumed_count data (removed (fold (outer_body L alg data) data ?s0)) = 0"
  proof -
    have "filter (\<lambda>r. index r \<notin> set (removed (fold (outer_body L alg data) data ?s0))) data = []"
      using outer_fold_consumes [of ?s0 data L alg data] by (auto simp: filter_empty_conv)
    then show ?thesis by (simp add: unconsumed_count_def)
  qed
  ultimately show ?thesis by (simp add: cluster_loop_def)
qed

subsection \<open>Every row is consumed once\<close>

lemma inner_body_consumed:
  assumes "x \<in> set data" "consumed_once data (removed t)"
  shows "consumed_once data (removed (inner_body L alg row x t))"
    and "int (length (removed (inner_body L alg row x t))) -
           fuzzy_match_count (inner_body L alg row x t) =
         int (length (removed t)) - fuzzy_match_count t"
  using assms
  by (cases rule: inner_body_cases [of L alg row x t]; auto simp: consumed_once_def)+

lemma inner_loop_consumed:
  assumes "row \<in> set data" "index row \<notin> set (removed s)" "consumed_once data (removed s)"
  shows "consumed_once data (removed (inner_loop L alg data row s))"
    and "int (length (removed (inner_loop L alg data row s))) -
           fuzzy_match_count (inner_loop L alg data row s) =
         int (length (removed s)) + 1 - fuzzy_match_count s"
proof -
  let ?P = "\<lambda>t. consumed_once data (removed t) \<and>
     int (length (removed t)) - fuzzy_match_count t =
       int (length (removed s)) + 1 - fuzzy_match_count s"
  have "?P (inner_init row s)"
    using assms by (auto simp: inner_init_def consumed_once_def)
  then have "?P (fold (inner_body L alg row) (test_set data row) (inner_init row s))"
  proof (rule fold_invariant)
    fix x and t :: inner_state assume "x \<in> set (test_set data row)" and "?P t"
    then show "?P (inner_body L alg row x t)"
      using inner_body_consumed [of x data t L alg row] by (simp add: test_set_def)
  qed
  then show "consumed_once data (removed (inner_loop L alg data row s))"
    and "int (length (removed (inner_loop L alg data row s))) -
           fuzzy_match_count (inner_loop L alg data row s) =
         int (length (removed s)) + 1 - fuzzy_match_count s"
    by (simp_all add: inner_loop_def)
qed

lemma outer_body_consumed:
  assumes "row \<in> set data" "consumed_once data (removed s)"
    "int (length (output_rows s)) + fuzzy_match_count s = int (length (removed s))"
  shows "consumed_once data (removed (outer_body L alg data row s))"
    and "int (length (output_rows (outer_body L alg data row s))) +
           fuzzy_match_count (outer_body L alg data row s) =
         int (length (removed (outer_body L alg data row s)))"
proof -
  show "consumed_once data (removed (outer_body L alg data row s))"
    using assms inner_loop_consumed(1) [of row data s L alg]
    by (simp add: outer_body_def Let_def)
  show "int (length (output_rows (outer_body L alg data row s))) +
           fuzzy_match_count (outer_body L alg data row s) =
         int (length (removed (outer_body L alg data row s)))"
    using assms inner_loop_consumed(2) [of row data s L alg]
    by (cases "index row \<in> set (removed s)") (simp_all add: outer_body_def Let_def)
qed

lemma cluster_loop_consumed:
  shows "distinct (removed (cluster_loop L alg data))"
    and "set (removed (cluster_loop L alg data)) = index ` set data"
    and "int (length (output_rows (cluster_loop L alg data))) +
           fuzzy_match_count (cluster_loop L alg data) =
         int (length (removed (cluster_loop L alg data)))"
proof -
  let ?Q = "\<lambda>s. consumed_once data (removed s) \<and>
     int (length (output_rows s)) + fuzzy_match_count s = int (length (removed s))"
  let ?s0 = "\<lparr>removed = [], fuzzy_match_count = 0, output_rows = []\<rparr>"
  have "?Q ?s0" by (simp add: consumed_once_def)
  then have "?Q (fold (outer_body L alg data) data ?s0)"
  proof (rule fold_invariant)
    fix x and s :: outer_state assume "x \<in> set data" and "?Q s"
    then show "?Q (outer_body L alg data x s)"
      using outer_body_consumed [of x data s L alg] by simp
  qed
  then have Q: "?Q (cluster_loop L alg data)" by (simp add: cluster_loop_def)
  then show "distinct (removed (cluster_loop L alg data))" by (simp add: consumed_once_def)
  show "set (removed (cluster_loop L alg data)) = index ` set data"
    using Q outer_fold_consumes [of ?s0 data L alg data]
    by (auto simp: consumed_once_def cluster_loop_def)
  show "int (length (output_rows (cluster_loop L alg data))) +
           fuzzy_match_count (cluster_loop L alg data) =
         int (length (removed (cluster_loop L alg data)))"
    using Q by simp
qed

subsection \<open>Matches and aliases\<close>

lemma inner_fold_aliases:
  assumes "distinct (map party_name xs)" "set (party_aliases t) \<inter> party_name ` set xs = {}"
  shows "fuzzy_match_count (fold (inner_body L alg row) xs t) -
           int (length (party_aliases (fold (inner_body L alg row) xs t))) =
         fuzzy_match_count t - int (length (party_aliases t))"
  using assms
proof (induction xs arbitrary: t)
  case Nil
  then show ?case by simp
next
  case (Cons x xs)
  let ?t = "inner_body L alg row x t"
  have new: "party_name x \<notin> set (party_aliases t)" using Cons.prems by auto
  have step: "set (party_aliases ?t) \<subseteq> insert (party_name x) (set (party_aliases t)) \<and>
     fuzzy_match_count ?t - int (length (party_aliases ?t)) =
       fuzzy_match_count t - int (length (party_aliases t))"
    using new by (cases rule: inner_body_cases [of L alg row x t]) (auto simp: append_new_def)
  then have "set (party_aliases ?t) \<inter> party_name ` set xs \<subseteq>
      insert (party_name x) (set (party_aliases t)) \<inter> party_name ` set xs"
    by blast
  moreover have "insert (party_name x) (set (party_aliases t)) \<inter> party_name ` set xs = {}"
    using Cons.prems by auto
  ultimately have "set (party_aliases ?t) \<inter> party_name ` set xs = {}"
    by blast
  then have "fuzzy_match_count (fold (inner_body L alg row) xs ?t) -
           int (length (party_aliases (fold (inner_body L alg row) xs ?t))) =
         fuzzy_match_count ?t - int (length (party_aliases ?t))"
    using Cons.prems by (intro Cons.IH) auto
  with step show ?case by simp
qed

lemma outer_body_aliases:
  assumes "distinct (map party_name data)"
    "fuzzy_match_count s = (\<Sum>c\<leftarrow>output_rows s. int (length (c_aliases c)))"
  shows "fuzzy_match_count (outer_body L alg data row s) =
         (\<Sum>c\<leftarrow>output_rows (outer_body L alg data row s). int (length (c_aliases c)))"
proof (cases "index row \<in> set (removed s)")
  case True
  then show ?thesis using assms by (simp add: outer_body_def)
next
  case False
  have "distinct (map party_name (test_set data row))"
    using assms(1) by (simp add: test_set_def distinct_map_filter)
  from inner_fold_aliases [OF this, of "inner_init row s" L alg row]
  have "fuzzy_match_count (inner_loop L alg data row s) -
          int (length (party_aliases (inner_loop L alg data row s))) = fuzzy_match_count s"
    by (simp add: inner_loop_def inner_init_def)
  then show ?thesis using False assms(2) by (simp add: outer_body_def Let_def emit_def)
qed

lemma cluster_loop_aliases:
  assumes "distinct (map party_name data)"
  shows "fuzzy_match_count (cluster_loop L alg data) =
         (\<Sum>c\<leftarrow>output_rows (cluster_loop L alg data). int (length (c_aliases c)))"
proof -
  let ?A = "\<lambda>s. fuzzy_match_count s = (\<Sum>c\<leftarrow>output_rows s. int (length (c_aliases c)))"
  let ?s0 = "\<lparr>removed = [], fuzzy_match_count = 0, output_rows = []\<rparr>"
  have "?A ?s0" by simp
  then have "?A (fold (outer_body L alg data) data ?s0)"
  proof (rule fold_invariant)
    fix x and s :: outer_state assume "?A s"
    then show "?A (outer_body L alg data x s)"
      by (rule outer_body_aliases [OF assms])
  qed
  then show ?thesis by (simp add: cluster_loop_def)
qed

subsection \<open>The names of the clusters\<close>

lemma name_of_label_row:
  assumes "distinct (map index data)" "x \<in> set data"
  shows "name_of_label data (index x) = Some (party_name x)"
proof -
  have "map fst (map (\<lambda>r. (index r, party_name r)) data) = map index data"
    by (simp add: comp_def)
  then have "distinct (map fst (map (\<lambda>r. (index r, party_name r)) data))"
    using assms(1) by (simp only:)
  moreover have "(index x, party_name x) \<in> set (map (\<lambda>r. (index r, party_name r)) data)"
    using assms(2) by (rule imageI [of x "set data" "\<lambda>r. (index r, party_name r)", simplified set_map [symmetric]])
  ultimately show ?thesis
    unfolding name_of_label_def by (rule map_of_is_SomeI)
qed

lemma inner_fold_names:
  assumes "distinct (map index data)" "set xs \<subseteq> set data"
    and "distinct (map party_name xs)" "set (party_aliases t) \<inter> party_name ` set xs = {}"
    and "map (name_of_label data) (removed t) = map Some (base @ party_aliases t)"
  shows "map (name_of_label data) (removed (fold (inner_body L alg row) xs t)) =
         map Some (base @ party_aliases (fold (inner_body L alg row) xs t))"
  using assms(2-)
proof (induction xs arbitrary: t)
  case Nil
  then show ?case by simp
next
  case (Cons x xs)
  let ?t = "inner_body L alg row x t"
  have x: "x \<in> set data" using Cons.prems(1) by simp
  have new: "party_name x \<notin> set (party_aliases t)" using Cons.prems(3) by auto
  have step: "set (party_aliases ?t) \<subseteq> insert (party_name x) (set (party_aliases t)) \<and>
     map (name_of_label data) (removed ?t) = map Some (base @ party_aliases ?t)"
  proof (cases rule: inner_body_cases [of L alg row x t])
    case skip
    then show ?thesis using Cons.prems(4) by auto
  next
    case merge
    have "party_aliases ?t = party_aliases t @ [party_name x]"
      using merge(5) new by (simp add: append_new_def)
    then show ?thesis
      using merge(3) Cons.prems(4) name_of_label_row [OF assms(1) x] by simp
  qed
  then have "set (party_aliases ?t) \<inter> party_name ` set xs \<subseteq>
      insert (party_name x) (set (party_aliases t)) \<inter> party_name ` set xs"
    by blast
  moreover have "insert (party_name x) (set (party_aliases t)) \<inter> party_name ` set xs = {}"
    using Cons.prems(2,3) by auto
  ultimately have disj: "set (party_aliases ?t) \<inter> party_name ` set xs = {}"
    by blast
  have "map (name_of_label data) (removed (fold (inner_body L alg row) xs ?t)) =
         map Some (base @ party_aliases (fold (inner_body L alg row) xs ?t))"
  proof (rule Cons.IH)
    show "set xs \<subseteq> set data" using Cons.prems(1) by simp
    show "distinct (map party_name xs)" using Cons.prems(2) by simp
    show "set (party_aliases ?t) \<inter> party_name ` set xs = {}" by (rule disj)
    show "map (name_of_label data) (removed ?t) = map Some (base @ party_aliases ?t)"
      using step by (rule conjunct2)
  qed
  then show ?case by simp
qed

lemma outer_body_names:
  assumes "distinct (map index data)" "distinct (map party_name data)" "row \<in> set data"
    and "map (name_of_label data) (removed s) =
         map Some (concat (map cluster_names (output_rows s)))"
  shows "map (name_of_label data) (removed (outer_body L alg data row s)) =
         map Some (concat (map cluster_names (output_rows (outer_body L alg data row s))))"
proof (cases "index row \<in> set (removed s)")
  case True
  then show ?thesis using assms(4) by (simp add: outer_body_def)
next
  case False
  let ?base = "concat (map cluster_names (output_rows s)) @ [party_name row]"
  let ?t0 = "inner_init row s"
  have 1: "set (test_set data row) \<subseteq> set data" by (auto simp: test_set_def)
  have 2: "distinct (map party_name (test_set data row))"
    using assms(2) by (simp add: test_set_def distinct_map_filter)
  have 3: "set (party_aliases ?t0) \<inter> party_name ` set (test_set data row) = {}"
    by (simp add: inner_init_def)
  have 4: "map (name_of_label data) (removed ?t0) = map Some (?base @ party_aliases ?t0)"
    using assms(4) name_of_label_row [OF assms(1,3)] by (simp add: inner_init_def)
  from inner_fold_names [OF assms(1) 1 2 3 4, of L alg row]
  have "map (name_of_label data) (removed (inner_loop L alg data row s)) =
        map Some (?base @ party_aliases (inner_loop L alg data row s))"
    by (simp add: inner_loop_def)
  then show ?thesis
    using False by (simp add: outer_body_def Let_def emit_def cluster_names_def)
qed

lemma cluster_loop_names:
  assumes "distinct (map index data)" "distinct (map party_name data)"
  shows "map (name_of_label data) (removed (cluster_loop L alg data)) =
         map Some (concat (map cluster_names (output_rows (cluster_loop L alg data))))"
proof -
  let ?N = "\<lambda>s. map (name_of_label data) (removed s) =
                 map Some (concat (map cluster_names (output_rows s)))"
  let ?s0 = "\<lparr>removed = [], fuzzy_match_count = 0, output_rows = []\<rparr>"
  have "?N ?s0" by simp
  then have "?N (fold (outer_body L alg data) data ?s0)"
  proof (rule fold_invariant)
    fix x and s :: outer_state assume "x \<in> set data" and "?N s"
    then show "?N (outer_body L alg data x s)"
      using outer_body_names [OF assms, of x s L alg] by simp
  qed
  then show ?thesis by (simp add: cluster_loop_def)
qed

lemma cluster_loop_partition:
  assumes "distinct (map index data)" "distinct (map party_name data)"
  shows "distinct (concat (map cluster_names (output_rows (cluster_loop L alg data))))"
    and "set (concat (map cluster_names (output_rows (cluster_loop L alg data)))) =
         set (map party_name data)"
proof -
  let ?rem = "removed (cluster_loop L alg data)"
  let ?names = "concat (map cluster_names (output_rows (cluster_loop L alg data)))"
  have eq: "map (name_of_label data) ?rem = map Some ?names"
    using assms by (rule cluster_loop_names)
  have rem: "distinct ?rem" "set ?rem = index ` set data"
    by (rule cluster_loop_consumed)+
  have lab: "name_of_label data (index x) = Some (party_name x)" if "x \<in> set data" for x
    using assms(1) that by (rule name_of_label_row)
  have inj: "inj_on (name_of_label data) (set ?rem)"
  proof (rule inj_onI)
    fix i j assume "i \<in> set ?rem" "j \<in> set ?rem"
      and e: "name_of_label data i = name_of_label data j"
    then obtain x y where xy: "x \<in> set data" "i = index x" "y \<in> set data" "j = index y"
      using rem(2) by auto
    then have "party_name x = party_name y" using e lab by simp
    moreover have "inj_on party_name (set data)"
      using assms(2) by (simp add: distinct_map)
    ultimately have "x = y" using xy(1,3) by (auto dest: inj_onD)
    then show "i = j" using xy by simp
  qed
  have "distinct (map (name_of_label data) ?rem)"
    using rem(1) inj by (simp add: distinct_map)
  then have "distinct (map Some ?names)" by (simp only: eq)
  then show "distinct ?names" by (simp add: distinct_map)
  have "Some ` set ?names = name_of_label data ` set ?rem"
    using eq by (metis set_map)
  also have "\<dots> = Some ` party_name ` set data"
    unfolding rem(2) using lab by (auto simp: image_iff)
  finally have "set ?names = party_name ` set data"
    by (simp add: inj_image_eq_iff)
  then show "set ?names = set (map party_name data)" by simp
qed

subsection \<open>Split and join; when the preprocessing returns\<close>

lemma str_split_not_Nil [simp]: "str_split c s \<noteq> []"
  by (induction s) (auto split: list.splits)

lemma length_str_split: "length (str_split c s) = Suc (count_list s c)"
proof (induction s)
  case Nil
  then show ?case by simp
next
  case (Cons x s)
  then show ?case by (auto split: list.splits)
qed

lemma str_split_free: "c \<notin> set t \<Longrightarrow> str_split c t = [t]"
  by (induction t) auto

lemma str_split_append: "c \<notin> set t \<Longrightarrow> str_split c (t @ c # s) = t # str_split c s"
  by (induction t) auto

lemma str_split_join:
  "ts \<noteq> [] \<Longrightarrow> \<forall>t\<in>set ts. c \<notin> set t \<Longrightarrow> str_split c (str_join [c] ts) = ts"
  by (induction "[c]" ts rule: str_join.induct) (simp_all add: str_split_free str_split_append)

lemma count_list_str_join:
  "ts \<noteq> [] \<Longrightarrow>
   Suc (count_list (str_join [c] ts) c) = length ts + sum_list (map (\<lambda>t. count_list t c) ts)"
  by (induction "[c]" ts rule: str_join.induct) simp_all

lemma count_list_filter_keep: "p c \<Longrightarrow> count_list (filter p s) c = count_list s c"
  by (induction s) auto

lemma filter_str_join:
  "p c \<Longrightarrow> filter p (str_join [c] ts) = str_join [c] (map (filter p) ts)"
  by (induction "[c]" ts rule: str_join.induct) simp_all

lemma bar_not_punct: "CHR ''|'' \<notin> set (punct rn)"
  by (simp add: punct_def)

lemma count_list_0_iff: "count_list s c = 0 \<longleftrightarrow> c \<notin> set s"
  by (induction s) auto

lemma remove_punc_num_eq:
  "remove_punc_num rn names =
     (if \<forall>n\<in>set names. CHR ''|'' \<notin> set n
      then Inr (map (translate rn) (if names = [] then [[]] else names))
      else Inl ValueError)"
proof (cases "names = []")
  case True
  then show ?thesis by (simp add: remove_punc_num_def translate_def)
next
  case False
  let ?j = "translate rn (str_join ''|'' names)"
  have len: "length (str_split (CHR ''|'') ?j) =
      length names + sum_list (map (\<lambda>t. count_list t (CHR ''|'')) names)"
    using False
    by (simp add: length_str_split translate_def count_list_filter_keep bar_not_punct
        count_list_str_join)
  show ?thesis
  proof (cases "\<forall>n\<in>set names. CHR ''|'' \<notin> set n")
    case True
    have "translate rn = filter (\<lambda>c. c \<notin> set (punct rn))"
      by (rule ext) (simp add: translate_def)
    then have "?j = str_join ''|'' (map (translate rn) names)"
      by (simp add: filter_str_join bar_not_punct)
    moreover have "\<forall>t\<in>set (map (translate rn) names). CHR ''|'' \<notin> set t"
      using True by (simp add: translate_def)
    ultimately have "str_split (CHR ''|'') ?j = map (translate rn) names"
      using False by (simp add: str_split_join)
    then show ?thesis using True False by (simp add: remove_punc_num_def Let_def)
  next
    case no: False
    then obtain n where "n \<in> set names" "count_list n (CHR ''|'') \<noteq> 0"
      by (auto simp: count_list_0_iff)
    then have "sum_list (map (\<lambda>t. count_list t (CHR ''|'')) names) \<noteq> 0"
      by (auto simp: sum_list_eq_0_iff)
    then have "length (str_split (CHR ''|'') ?j) \<noteq> length names"
      using len by simp
    then have "remove_punc_num rn names = Inl ValueError"
      using False by (simp add: remove_punc_num_def Let_def)
    then show ?thesis using no by simp
  qed
qed

lemma preprocess_eq:
  "preprocess a names =
     (if \<forall>n\<in>set names. CHR ''|'' \<notin> set n
      then Inr (map (normalize a) (if names = [] then [[]] else names))
      else Inl ValueError)"
  by (simp add: preprocess_def remove_punc_num_eq normalize_def)

subsection \<open>The constructor\<close>

lemma accepted_names:
  "accepted a loaded_data \<longleftrightarrow>
     (\<forall>n\<in>set (map party_name (read_frame (slice_to loaded_data (arg_size a)))).
        CHR ''|'' \<notin> set n)"
  by (simp add: accepted_def map_party_name_read_frame)

lemma preprocess_frame:
  "preprocess a (map party_name (read_frame (slice_to loaded_data (arg_size a)))) =
     (if accepted a loaded_data
      then Inr (map (normalize a)
             (if slice_to loaded_data (arg_size a) = [] then [[]]
              else map party_name (slice_to loaded_data (arg_size a))))
      else Inl ValueError)"
  by (simp add: preprocess_eq map_party_name_read_frame accepted_def)

lemma normalized_frame_eq:
  "normalized_frame a loaded_data =
     (if accepted a loaded_data
      then set_party_name (read_frame (slice_to loaded_data (arg_size a)))
             (map (normalize a)
               (if slice_to loaded_data (arg_size a) = [] then [[]]
                else map party_name (slice_to loaded_data (arg_size a))))
      else [])"
  unfolding normalized_frame_def Let_def preprocess_frame by simp

lemma init_eq:
  "RemoveRepetitiveNames L a loaded_data =
     (if accepted a loaded_data then
        (let merged = exact_merge (normalized_frame a loaded_data);
             data = add_position merged;
             s = cluster_loop L (arg_algorithm a) data
         in Inr \<lparr>self_data = data,
                 self_dropped_duplicates_count = arg_size a - int (length merged),
                 self_fuzzy_match_count = fuzzy_match_count s,
                 self_output_df = output_rows s,
                 final_removed = removed s\<rparr>)
      else Inl ValueError)"
  unfolding RemoveRepetitiveNames_def normalized_frame_eq Let_def preprocess_frame by simp

lemma init_returns: "accepted a loaded_data \<Longrightarrow> \<exists>m. RemoveRepetitiveNames L a loaded_data = Inr m"
  by (simp add: init_eq Let_def)

lemma init_accepted: "RemoveRepetitiveNames L a loaded_data = Inr m \<Longrightarrow> accepted a loaded_data"
  by (simp add: init_eq split: if_splits)

lemma read_frame_Nil_iff: "read_frame recs = [] \<longleftrightarrow> recs = []"
proof -
  have "length (read_frame recs) = length recs" by (simp add: read_frame_def)
  then show ?thesis by (metis length_0_conv)
qed

lemma normalized_frame_columns:
  assumes "accepted a loaded_data"
  shows "distinct (map index (normalized_frame a loaded_data))"
    and "sum_list (map party_count (normalized_frame a loaded_data)) =
         sum_list (map party_count (slice_to loaded_data (arg_size a)))"
    and "sum_list (map (\<lambda>r. sint (party_count r)) (normalized_frame a loaded_data)) =
         sum_list (map (\<lambda>r. sint (party_count r)) (slice_to loaded_data (arg_size a)))"
    and "map party_name (normalized_frame a loaded_data) =
         map (normalize a)
           (if slice_to loaded_data (arg_size a) = [] then [[]]
            else map party_name (slice_to loaded_data (arg_size a)))"
proof -
  let ?recs = "slice_to loaded_data (arg_size a)"
  let ?frame = "read_frame ?recs"
  let ?A = "distinct (map index (normalized_frame a loaded_data))"
  let ?B = "sum_list (map party_count (normalized_frame a loaded_data)) =
         sum_list (map party_count ?recs)"
  let ?C = "sum_list (map (\<lambda>r. sint (party_count r)) (normalized_frame a loaded_data)) =
         sum_list (map (\<lambda>r. sint (party_count r)) ?recs)"
  let ?D = "map party_name (normalized_frame a loaded_data) =
         map (normalize a) (if ?recs = [] then [[]] else map party_name ?recs)"
  have all: "?A \<and> ?B \<and> ?C \<and> ?D"
  proof (cases "?recs = []")
    case True
    then have eq: "normalized_frame a loaded_data = set_party_name [] [normalize a []]"
      using assms by (simp add: normalized_frame_eq read_frame_def)
    have a1: "distinct (map index (normalized_frame a loaded_data))"
      unfolding eq set_party_name_Nil(1) by simp
    have b1: "sum_list (map party_count (normalized_frame a loaded_data)) =
         sum_list (map party_count ?recs)"
      unfolding eq set_party_name_Nil(3) using True by simp
    have c1: "sum_list (map (\<lambda>r. sint (party_count r)) (normalized_frame a loaded_data)) =
         sum_list (map (\<lambda>r. sint (party_count r)) ?recs)"
      unfolding eq set_party_name_Nil(4) using True by simp
    have d1: "map party_name (normalized_frame a loaded_data) =
         map (normalize a) (if ?recs = [] then [[]] else map party_name ?recs)"
      unfolding eq set_party_name_Nil(2) using True by simp
    show ?thesis using a1 b1 c1 d1 by (intro conjI)
  next
    case False
    let ?names = "map (normalize a) (map party_name ?recs)"
    have eq: "normalized_frame a loaded_data = set_party_name ?frame ?names"
      using assms False by (simp add: normalized_frame_eq)
    have ne: "?frame \<noteq> []" using False by (simp add: read_frame_Nil_iff)
    have len: "length ?names = length ?frame" by (simp add: read_frame_def)
    have a2: "distinct (map index (normalized_frame a loaded_data))"
      unfolding eq set_party_name_columns(1) [OF ne len]
      by (simp only: map_index_read_frame distinct_upt)
    have cnt: "map party_count (normalized_frame a loaded_data) = map party_count ?recs"
      unfolding eq set_party_name_columns(2) [OF ne len]
      by (rule map_party_count_read_frame)
    have b2: "sum_list (map party_count (normalized_frame a loaded_data)) =
         sum_list (map party_count ?recs)"
      by (simp only: cnt)
    have "map (\<lambda>r. sint (party_count r)) (normalized_frame a loaded_data) =
          map sint (map party_count (normalized_frame a loaded_data))"
      by (simp add: comp_def)
    also have "\<dots> = map (\<lambda>r. sint (party_count r)) ?recs"
      unfolding cnt by (simp add: comp_def)
    finally have c2: "sum_list (map (\<lambda>r. sint (party_count r)) (normalized_frame a loaded_data)) =
         sum_list (map (\<lambda>r. sint (party_count r)) ?recs)"
      by (simp only:)
    have d2: "map party_name (normalized_frame a loaded_data) =
         map (normalize a) (if ?recs = [] then [[]] else map party_name ?recs)"
      unfolding eq set_party_name_columns(3) [OF ne len] using False by simp
    show ?thesis using a2 b2 c2 d2 by (intro conjI)
  qed
  from all show ?A by (rule conjunct1)
  from all show ?B by (elim conjE)
  from all show ?C by (elim conjE)
  from all show ?D by (elim conjE)
qed

lemma init_data:
  assumes "RemoveRepetitiveNames L a loaded_data = Inr m"
  shows "distinct (map index (self_data m))"
    and "distinct (map party_name (self_data m))"
    and "sum_list (map party_count (self_data m)) =
         sum_list (map party_count (slice_to loaded_data (arg_size a)))"
    and "self_output_df m = output_rows (cluster_loop L (arg_algorithm a) (self_data m))"
    and "self_fuzzy_match_count m = fuzzy_match_count (cluster_loop L (arg_algorithm a) (self_data m))"
    and "final_removed m = removed (cluster_loop L (arg_algorithm a) (self_data m))"
    and "map party_count (self_data m) =
         map party_count (exact_merge (normalized_frame a loaded_data))"
    and "self_dropped_duplicates_count m =
         arg_size a - int (length (exact_merge (normalized_frame a loaded_data)))"
proof -
  let ?merged = "exact_merge (normalized_frame a loaded_data)"
  from assms have acc: "accepted a loaded_data"
    by (rule init_accepted)
  with assms have m: "m = \<lparr>self_data = add_position ?merged,
                 self_dropped_duplicates_count = arg_size a - int (length ?merged),
                 self_fuzzy_match_count =
                   fuzzy_match_count (cluster_loop L (arg_algorithm a) (add_position ?merged)),
                 self_output_df = output_rows (cluster_loop L (arg_algorithm a) (add_position ?merged)),
                 final_removed = removed (cluster_loop L (arg_algorithm a) (add_position ?merged))\<rparr>"
    by (simp add: init_eq Let_def)
  have "distinct (map index (transform_sum (normalized_frame a loaded_data)))"
    using normalized_frame_columns(1) [OF acc] by (simp add: transform_sum_columns)
  then show "distinct (map index (self_data m))"
    by (simp add: m add_position_columns exact_merge_def distinct_index_drop_duplicates)
  show "distinct (map party_name (self_data m))"
    by (simp add: m add_position_columns exact_merge_def distinct_party_name_drop_duplicates)
  have "sum_list (map party_count ?merged) =
         sum_list (map party_count (slice_to loaded_data (arg_size a)))"
    by (simp only: exact_merge_conserves normalized_frame_columns(2) [OF acc])
  then show "sum_list (map party_count (self_data m)) =
         sum_list (map party_count (slice_to loaded_data (arg_size a)))"
    by (simp only: m matcher.simps add_position_columns)
  show "self_output_df m = output_rows (cluster_loop L (arg_algorithm a) (self_data m))"
    and "self_fuzzy_match_count m = fuzzy_match_count (cluster_loop L (arg_algorithm a) (self_data m))"
    and "final_removed m = removed (cluster_loop L (arg_algorithm a) (self_data m))"
    and "self_dropped_duplicates_count m = arg_size a - int (length ?merged)"
    by (simp_all add: m)
  show "map party_count (self_data m) = map party_count ?merged"
    by (simp only: m matcher.simps add_position_columns)
qed

lemma normalized_frame_counts:
  "set (map party_count (normalized_frame a loaded_data)) \<subseteq>
     insert 0 (set (map party_count (slice_to loaded_data (arg_size a))))"
proof (cases "accepted a loaded_data")
  case False
  then show ?thesis by (simp add: normalized_frame_eq)
next
  case acc: True
  let ?recs = "slice_to loaded_data (arg_size a)"
  show ?thesis
  proof (cases "?recs = []")
    case True
    then have "normalized_frame a loaded_data = set_party_name [] [normalize a []]"
      using acc by (simp add: normalized_frame_eq read_frame_def)
    then show ?thesis using set_party_name_Nil(5) [of "[normalize a []]"] by auto
  next
    case False
    let ?names = "map (normalize a) (map party_name ?recs)"
    have eq: "normalized_frame a loaded_data = set_party_name (read_frame ?recs) ?names"
      using acc False by (simp add: normalized_frame_eq)
    have ne: "read_frame ?recs \<noteq> []" using False by (simp add: read_frame_Nil_iff)
    have len: "length ?names = length (read_frame ?recs)" by (simp add: read_frame_def)
    have "map party_count (normalized_frame a loaded_data) = map party_count ?recs"
      unfolding eq set_party_name_columns(2) [OF ne len]
      by (rule map_party_count_read_frame)
    then show ?thesis by (simp only: subset_insertI)
  qed
qed

lemma input_no_overflow:
  assumes "\<forall>r\<in>set (slice_to loaded_data (arg_size a)). 0 \<le> sint (party_count r)"
    and "sum_list (map (\<lambda>r. sint (party_count r)) (slice_to loaded_data (arg_size a))) < 2 ^ 63"
  shows "no_overflow (normalized_frame a loaded_data)"
proof (cases "accepted a loaded_data")
  case False
  then show ?thesis by (simp add: normalized_frame_eq no_overflow_def)
next
  case True
  have "\<forall>r\<in>set (normalized_frame a loaded_data). 0 \<le> sint (party_count r)"
  proof
    fix r assume "r \<in> set (normalized_frame a loaded_data)"
    then have "party_count r \<in> set (map party_count (normalized_frame a loaded_data))"
      by simp
    then have "party_count r = 0 \<or>
        party_count r \<in> set (map party_count (slice_to loaded_data (arg_size a)))"
      using normalized_frame_counts [of a loaded_data] by blast
    then show "0 \<le> sint (party_count r)"
      using assms(1) by auto
  qed
  moreover have "sum_list (map (\<lambda>r. sint (party_count r)) (normalized_frame a loaded_data)) < 2 ^ 63"
    using normalized_frame_columns(3) [OF True] assms(2) by simp
  ultimately show ?thesis by (rule nonneg_no_overflow)
qed

lemma init_conserves:
  assumes "RemoveRepetitiveNames L a loaded_data = Inr m"
    and "no_overflow (normalized_frame a loaded_data)"
  shows "sum_list (map (\<lambda>r. sint (party_count r)) (self_data m)) =
         sum_list (map (\<lambda>r. sint (party_count r)) (slice_to loaded_data (arg_size a)))"
proof -
  have acc: "accepted a loaded_data" using assms(1) by (rule init_accepted)
  have "map (\<lambda>r. sint (party_count r)) (self_data m) = map sint (map party_count (self_data m))"
    by (simp add: comp_def)
  also have "\<dots> = map (\<lambda>r. sint (party_count r)) (exact_merge (normalized_frame a loaded_data))"
    unfolding init_data(7) [OF assms(1)] by (simp add: comp_def)
  finally have "sum_list (map (\<lambda>r. sint (party_count r)) (self_data m)) =
      sum_list (map (\<lambda>r. sint (party_count r)) (exact_merge (normalized_frame a loaded_data)))"
    by (simp only:)
  also have "\<dots> = sum_list (map (\<lambda>r. sint (party_count r)) (normalized_frame a loaded_data))"
    using assms(2) by (rule exact_merge_conserves_int)
  also have "\<dots> = sum_list (map (\<lambda>r. sint (party_count r)) (slice_to loaded_data (arg_size a)))"
    by (rule normalized_frame_columns(3) [OF acc])
  finally show ?thesis .
qed

subsection \<open>The scenario of the spec\<close>

lemma edit_distance_cons_le: "edit_distance (x # xs) (x # ys) \<le> edit_distance xs ys"
  by simp

lemma edit_distance_prefix_le: "edit_distance (p @ xs) (p @ ys) \<le> edit_distance xs ys"
proof (induction p)
  case Nil
  then show ?case by simp
next
  case (Cons x p)
  have "edit_distance ((x # p) @ xs) ((x # p) @ ys) \<le> edit_distance (p @ xs) (p @ ys)"
    using edit_distance_cons_le [of x "p @ xs" "p @ ys"] by simp
  with Cons show ?case by linarith
qed

lemma edit_distance_length_diff: "length ys \<le> length xs + edit_distance xs ys"
  by (induction xs ys rule: edit_distance.induct) auto

lemma edit_distance_scenario: "edit_distance ''abc apt'' ''abc apts'' = 1"
proof -
  have "edit_distance (''abc apt'' @ []) (''abc apt'' @ ''s'') \<le> edit_distance [] ''s''"
    by (rule edit_distance_prefix_le)
  then have "edit_distance ''abc apt'' ''abc apts'' \<le> 1"
    by (simp del: edit_distance.simps(3))
  moreover have "1 \<le> edit_distance ''abc apt'' ''abc apts''"
    using edit_distance_length_diff [of "''abc apts''" "''abc apt''"]
    by (simp del: edit_distance.simps)
  ultimately show ?thesis by linarith
qed

lemma edit_ratio_scenario: "edit_ratio ''abc apt'' ''abc apts'' = 175 / 2"
  by (simp del: edit_distance.simps add: edit_ratio_def edit_distance_scenario)

lemma normalize_scenario:
  "normalize scenario_args ''ABC Apartments LLC'' = ''abc apt''"
  "normalize scenario_args ''ABC Apts LLC'' = ''abc apts''"
  by code_simp+

lemma scenario_args_simps:
  "arg_size scenario_args = 10000" "arg_algorithm scenario_args = ''levenshtein''"
  by (simp_all add: scenario_args_def)

lemma word_position_scenario:
  "word_position ''abc apt'' = 434" "word_position ''abc apts'' = 518"
  by (simp_all add: word_position_def sum_string_def)

subsection \<open>The whitespace step\<close>

lemma is_space_blank [simp]: "is_space (CHR '' '')"
  by (simp add: is_space_def)

lemma collapse_ws_Nil_iff [simp]: "collapse_ws s = [] \<longleftrightarrow> s = []"
  by (cases s) auto

lemma hd_collapse_ws:
  "s \<noteq> [] \<Longrightarrow> hd (collapse_ws s) = (if is_space (hd s) then CHR '' '' else hd s)"
  by (cases s) auto

lemma single_spaced_Cons:
  "single_spaced (c # s) \<longleftrightarrow>
     (is_space c \<longrightarrow> c = CHR '' '' \<and> (s = [] \<or> \<not> is_space (hd s))) \<and> single_spaced s"
  by (cases s) auto

lemma single_spaced_collapse_ws: "single_spaced (collapse_ws s)"
proof (induction s rule: collapse_ws.induct)
  case 1
  then show ?case by simp
next
  case (2 c cs)
  show ?case
  proof (cases "is_space c")
    case True
    let ?r = "dropWhile is_space cs"
    have "?r = [] \<or> \<not> is_space (hd (collapse_ws ?r))"
    proof (cases "?r = []")
      case True
      then show ?thesis by (rule disjI1)
    next
      case False
      then have "\<not> is_space (hd ?r)" by (rule hd_dropWhile)
      moreover have "hd (collapse_ws ?r) = (if is_space (hd ?r) then CHR '' '' else hd ?r)"
        using False by (rule hd_collapse_ws)
      ultimately have "\<not> is_space (hd (collapse_ws ?r))"
        by presburger
      then show ?thesis by (rule disjI2)
    qed
    then show ?thesis using True 2(1) by (auto simp: single_spaced_Cons)
  next
    case False
    then show ?thesis using 2(2) by (simp add: single_spaced_Cons)
  qed
qed

lemma last_dropWhile: "dropWhile P xs \<noteq> [] \<Longrightarrow> last (dropWhile P xs) = last xs"
  by (induction xs) auto

lemma last_collapse_ws:
  "s \<noteq> [] \<Longrightarrow> is_space (last s) \<Longrightarrow> last (collapse_ws s) = CHR '' ''"
proof (induction s rule: collapse_ws.induct)
  case 1
  then show ?case by simp
next
  case (2 c cs)
  show ?case
  proof (cases "is_space c")
    case True
    show ?thesis
    proof (cases "dropWhile is_space cs = []")
      case True
      then show ?thesis using \<open>is_space c\<close> by simp
    next
      case False
      then have "cs \<noteq> []" by auto
      then have "is_space (last (dropWhile is_space cs))"
        using last_dropWhile [OF False] 2(4) by simp
      then show ?thesis using 2(1) [OF True False] True False by simp
    qed
  next
    case False
    then have "cs \<noteq> []" using 2(4) by auto
    then show ?thesis using False 2 by simp
  qed
qed

lemma single_spaced_fixed: "single_spaced s \<Longrightarrow> collapse_ws s = s"
proof (induction s rule: collapse_ws.induct)
  case 1
  then show ?case by simp
next
  case (2 c cs)
  show ?case
  proof (cases "is_space c")
    case True
    then have "c = CHR '' ''" "cs = [] \<or> \<not> is_space (hd cs)" "single_spaced cs"
      using 2(3) by (auto simp: single_spaced_Cons)
    moreover from this have "dropWhile is_space cs = cs" by (cases cs) auto
    ultimately show ?thesis using 2(1) True by simp
  next
    case False
    then show ?thesis using 2 by (simp add: single_spaced_Cons)
  qed
qed

subsection \<open>Lower case and punctuation\<close>

lemma punct_codes:
  "c \<in> set (punct rn) \<Longrightarrow>
     (of_char c :: nat) < 97 \<or> (of_char c :: nat) = 123 \<or> (of_char c :: nat) = 125 \<or>
     (of_char c :: nat) = 126"
  by (auto simp: punct_def split: if_splits)

lemma blank_not_punct [simp]: "CHR '' '' \<notin> set (punct rn)"
  by (simp add: punct_def)

lemma lower_char_cases:
  "lower_char c = c \<or>
   (97 \<le> (of_char (lower_char c) :: nat) \<and> (of_char (lower_char c) :: nat) \<le> 122) \<or>
   (224 \<le> (of_char (lower_char c) :: nat) \<and> (of_char (lower_char c) :: nat) \<le> 254)"
  by (auto simp: lower_char_def Let_def)

lemma lower_char_unchanged:
  "(of_char c :: nat) < 65 \<or> (90 < (of_char c :: nat) \<and> (of_char c :: nat) < 192) \<or>
     222 < (of_char c :: nat) \<Longrightarrow> lower_char c = c"
  by (auto simp: lower_char_def Let_def)

lemma lower_char_idem [simp]: "lower_char (lower_char c) = lower_char c"
  using lower_char_cases [of c] by (auto intro: lower_char_unchanged)

lemma is_space_unchanged: "is_space c \<Longrightarrow> lower_char c = c"
  by (rule lower_char_unchanged) (auto simp: is_space_def Let_def)

lemma is_space_lower_char [simp]: "is_space (lower_char c) \<longleftrightarrow> is_space c"
  using lower_char_cases [of c] by (auto simp: is_space_unchanged) (auto simp: is_space_def Let_def)

lemma lower_char_blank [simp]: "lower_char (CHR '' '') = CHR '' ''"
  by (simp add: is_space_unchanged)

lemma lower_char_punct: "lower_char c \<in> set (punct rn) \<Longrightarrow> c \<in> set (punct rn)"
  using lower_char_cases [of c] punct_codes [of "lower_char c" rn] by auto

lemma lower_char_bar: "lower_char c = CHR ''|'' \<Longrightarrow> c = CHR ''|''"
  using lower_char_cases [of c] by auto

subsection \<open>Tokens\<close>

lemma str_join_Cons_Cons: "str_join d ((x # t) # ts) = x # str_join d (t # ts)"
  by (cases ts) auto

lemma str_join_split: "str_join [c] (str_split c s) = s"
proof (induction s)
  case Nil
  then show ?case by simp
next
  case (Cons x s)
  obtain t ts where ts: "str_split c s = t # ts"
    by (cases "str_split c s") auto
  show ?case using Cons ts by (auto simp: str_join_Cons_Cons)
qed

lemma str_split_tokens:
  "t \<in> set (str_split c s) \<Longrightarrow> c \<notin> set t \<and> set t \<subseteq> set s"
proof (induction s arbitrary: t)
  case Nil
  then show ?case by simp
next
  case (Cons x s)
  obtain u us where us: "str_split c s = u # us"
    by (cases "str_split c s") auto
  show ?case
  proof (cases "x = c")
    case True
    then show ?thesis using Cons by auto
  next
    case False
    then have "t = x # u \<or> t \<in> set us" using Cons.prems us by auto
    then show ?thesis using Cons.IH [of u] Cons.IH [of t] us False by auto
  qed
qed

lemma set_str_join: "set (str_join d ts) \<subseteq> set d \<union> (\<Union>t\<in>set ts. set t)"
  by (induction d ts rule: str_join.induct) auto

lemma str_join_append:
  "ys \<noteq> [] \<Longrightarrow> zs \<noteq> [] \<Longrightarrow> str_join d (ys @ zs) = str_join d ys @ d @ str_join d zs"
proof (induction d ys rule: str_join.induct)
  case (1 d)
  then show ?case by simp
next
  case (2 d t)
  then show ?case by (cases zs) auto
next
  case (3 d t u ts)
  then show ?case by simp
qed

lemma not_single_spaced_double: "\<not> single_spaced (p @ CHR '' '' # CHR '' '' # q)"
  by (induction p) (auto simp: single_spaced_Cons)

lemma single_spaced_ends_only:
  assumes "single_spaced s"
  shows "ends_only (str_split (CHR '' '') s)"
  unfolding ends_only_def
proof (intro allI impI)
  fix ys zs assume eq: "str_split (CHR '' '') s = ys @ [] # zs"
  show "ys = [] \<or> zs = []"
  proof (rule ccontr)
    assume "\<not> (ys = [] \<or> zs = [])"
    then have ne: "ys \<noteq> []" "zs \<noteq> []" by auto
    then obtain z zs' where zs: "zs = z # zs'" by (cases zs) auto
    have "s = str_join '' '' (ys @ [] # zs)"
      using str_join_split [of "CHR '' ''" s] eq by simp
    also have "\<dots> = str_join '' '' ys @ '' '' @ str_join '' '' ([] # zs)"
      using ne by (intro str_join_append) auto
    also have "\<dots> = str_join '' '' ys @ CHR '' '' # CHR '' '' # str_join '' '' zs"
      by (simp add: zs)
    finally have s: "s = str_join '' '' ys @ CHR '' '' # CHR '' '' # str_join '' '' zs" .
    have "\<not> single_spaced (str_join '' '' ys @ CHR '' '' # CHR '' '' # str_join '' '' zs)"
      by (rule not_single_spaced_double)
    then show False using assms s by simp
  qed
qed

lemma ends_only_tl: "ends_only (t # ts) \<Longrightarrow> ends_only ts"
  unfolding ends_only_def
proof (intro allI impI)
  fix ys zs assume a: "\<forall>ys zs. t # ts = ys @ [] # zs \<longrightarrow> ys = [] \<or> zs = []"
    and "ts = ys @ [] # zs"
  then have "t # ts = (t # ys) @ [] # zs" by simp
  with a have "t # ys = [] \<or> zs = []" by blast
  then show "ys = [] \<or> zs = []" by simp
qed

lemma ends_only_middle:
  assumes "ends_only (t # u # v # ts)"
  shows "u \<noteq> []"
proof
  assume "u = []"
  then have "t # u # v # ts = [t] @ [] # (v # ts)" by simp
  with assms have "[t] = [] \<or> v # ts = []" unfolding ends_only_def by blast
  then show False by simp
qed

lemma single_spaced_append:
  "\<forall>c\<in>set t. \<not> is_space c \<Longrightarrow> single_spaced r \<Longrightarrow> single_spaced (t @ r)"
  by (induction t) (auto simp: single_spaced_Cons)

lemma hd_str_join: "u \<noteq> [] \<Longrightarrow> hd (str_join d (u # ts)) = hd u"
  by (cases ts) auto

lemma single_spaced_str_join:
  "ends_only ts \<Longrightarrow> \<forall>t\<in>set ts. \<forall>c\<in>set t. \<not> is_space c \<Longrightarrow>
   single_spaced (str_join '' '' ts)"
proof (induction "'' ''" ts rule: str_join.induct)
  case 1
  then show ?case by simp
next
  case (2 t)
  then show ?case using single_spaced_append [of t "[]"] by simp
next
  case (3 t u ts)
  let ?r = "str_join '' '' (u # ts)"
  have r: "single_spaced ?r"
    using 3 ends_only_tl [of t "u # ts"] by simp
  have "?r = [] \<or> \<not> is_space (hd ?r)"
  proof (cases "u = []")
    case True
    have "ts = []"
    proof (cases ts)
      case Nil
      then show ?thesis .
    next
      case (Cons v vs)
      then have "u \<noteq> []" using ends_only_middle [of t u v vs] 3(2) by simp
      with True show ?thesis by simp
    qed
    then show ?thesis using True by simp
  next
    case False
    then have "hd ?r = hd u" by (rule hd_str_join)
    moreover have "\<not> is_space (hd u)" using False 3(3) by simp
    ultimately show ?thesis by simp
  qed
  then have "single_spaced (CHR '' '' # ?r)"
    using r by (simp add: single_spaced_Cons)
  then show ?case using single_spaced_append [of t "CHR '' '' # ?r"] 3(3) by simp
qed

lemma filter_eq_appendD:
  "filter P xs = ys @ zs \<Longrightarrow> \<exists>ys' zs'. xs = ys' @ zs' \<and> filter P ys' = ys \<and> filter P zs' = zs"
proof (induction xs arbitrary: ys)
  case Nil
  then show ?case by simp
next
  case (Cons x xs)
  show ?case
  proof (cases "P x")
    case True
    show ?thesis
    proof (cases ys)
      case Nil
      then have "x # xs = [] @ (x # xs) \<and> filter P [] = ys \<and> filter P (x # xs) = zs"
        using Cons.prems by simp
      then show ?thesis by blast
    next
      case (Cons y ys1)
      then have "filter P xs = ys1 @ zs" "y = x" using True Cons.prems by auto
      then obtain ys' zs' where "xs = ys' @ zs'" "filter P ys' = ys1" "filter P zs' = zs"
        using Cons.IH by blast
      then have "x # xs = (x # ys') @ zs' \<and> filter P (x # ys') = ys \<and> filter P zs' = zs"
        using True Cons \<open>y = x\<close> by simp
      then show ?thesis by blast
    qed
  next
    case False
    then have "filter P xs = ys @ zs" using Cons.prems by simp
    then obtain ys' zs' where "xs = ys' @ zs'" "filter P ys' = ys" "filter P zs' = zs"
      using Cons.IH by blast
    then have "x # xs = (x # ys') @ zs' \<and> filter P (x # ys') = ys \<and> filter P zs' = zs"
      using False by simp
    then show ?thesis by blast
  qed
qed

lemma ends_only_filter: "ends_only ts \<Longrightarrow> ends_only (filter P ts)"
  unfolding ends_only_def
proof (intro allI impI)
  fix ys zs
  assume a: "\<forall>ys zs. ts = ys @ [] # zs \<longrightarrow> ys = [] \<or> zs = []"
    and f: "filter P ts = ys @ [] # zs"
  from filter_eq_appendD [OF f]
  obtain ys' zs' where 1: "ts = ys' @ zs'" "filter P ys' = ys" "filter P zs' = [] # zs"
    by blast
  from filter_eq_ConsD [OF 1(3)]
  obtain us vs where 2: "zs' = us @ [] # vs" "zs = filter P vs"
    by blast
  have "ts = (ys' @ us) @ [] # vs" by (simp add: 1(1) 2(1))
  with a have "ys' @ us = [] \<or> vs = []" by blast
  then have "ys' = [] \<or> vs = []" by blast
  then show "ys = [] \<or> zs = []" using 1(2) 2(2) by auto
qed

lemma ends_only_map:
  assumes "ends_only ts" and "\<And>t. f t = [] \<Longrightarrow> t = []"
  shows "ends_only (map f ts)"
  unfolding ends_only_def
proof (intro allI impI)
  fix ys zs assume m: "map f ts = ys @ [] # zs"
  then have "\<exists>us vs. ts = us @ vs \<and> ys = map f us \<and> [] # zs = map f vs"
    by (simp only: map_eq_append_conv)
  then obtain ys' where "\<exists>vs. ts = ys' @ vs \<and> ys = map f ys' \<and> [] # zs = map f vs" ..
  then obtain zs' where c: "ts = ys' @ zs' \<and> ys = map f ys' \<and> [] # zs = map f zs'" ..
  then have 1: "ts = ys' @ zs'" "ys = map f ys'" "[] # zs = map f zs'"
    by simp_all
  from 1(3) obtain z zs'' where 2: "zs' = z # zs''" "f z = []" "zs = map f zs''"
    by (cases zs') simp_all
  from 2(2) have "z = []" by (rule assms(2))
  then have "ts = ys' @ [] # zs''" by (simp add: 1(1) 2(1))
  then have "ys' = [] \<or> zs'' = []" using assms(1) unfolding ends_only_def by blast
  then show "ys = [] \<or> zs = []" using 1(2) 2(3) by auto
qed

subsection \<open>Names that the normalizer leaves unchanged\<close>

lemma set_collapse_ws: "set (collapse_ws s) \<subseteq> insert (CHR '' '') (set s)"
proof (induction s rule: collapse_ws.induct)
  case 1
  then show ?case by simp
next
  case (2 c cs)
  show ?case
  proof (cases "is_space c")
    case True
    have "set (dropWhile is_space cs) \<subseteq> set cs"
      by (auto dest: set_dropWhileD)
    then show ?thesis using True 2(1) by auto
  next
    case False
    then show ?thesis using 2(2) by auto
  qed
qed

lemma single_spaced_lower: "single_spaced s \<Longrightarrow> single_spaced (lower s)"
proof (induction s)
  case Nil
  then show ?case by (simp add: lower_def)
next
  case (Cons c s)
  have hd: "s \<noteq> [] \<Longrightarrow> is_space (hd (lower s)) = is_space (hd s)"
    by (simp add: lower_def hd_map)
  have "lower (c # s) = lower_char c # lower s" by (simp add: lower_def)
  moreover have "lower s = [] \<longleftrightarrow> s = []" by (simp add: lower_def)
  ultimately show ?case
    using Cons hd by (auto simp: single_spaced_Cons is_space_unchanged)
qed

lemma single_spaced_space:
  "single_spaced s \<Longrightarrow> c \<in> set s \<Longrightarrow> is_space c \<Longrightarrow> c = CHR '' ''"
  by (induction s) (auto simp: single_spaced_Cons)

lemma clean_first:
  assumes "CHR ''|'' \<notin> set n"
  shows "clean rn (lower (whitespace_step (translate rn n)))"
proof -
  let ?s = "whitespace_step (translate rn n)"
  have chars: "c \<notin> set (punct rn) \<and> c \<noteq> CHR ''|''" if "c \<in> set ?s" for c
  proof -
    from that have "c = CHR '' '' \<or> c \<in> set (translate rn n)"
      using set_collapse_ws [of "translate rn n"] by (auto simp: whitespace_step_def)
    then show ?thesis using assms by (auto simp: translate_def)
  qed
  have "d \<notin> set (punct rn) \<and> lower_char d = d \<and> d \<noteq> CHR ''|''" if "d \<in> set (lower ?s)" for d
  proof -
    from that obtain c where c: "c \<in> set ?s" "d = lower_char c"
      by (auto simp: lower_def)
    then show ?thesis
      using chars [OF c(1)] lower_char_punct [of c rn] lower_char_bar [of c] by auto
  qed
  moreover have "single_spaced (lower ?s)"
    by (simp add: whitespace_step_def single_spaced_collapse_ws single_spaced_lower)
  ultimately show ?thesis by (simp add: clean_def)
qed

lemma clean_tokens:
  assumes "clean rn s" "t \<in> set (str_split (CHR '' '') s)"
  shows "clean_token rn t"
  unfolding clean_token_def
proof
  fix c assume c: "c \<in> set t"
  from str_split_tokens [OF assms(2)] have t: "CHR '' '' \<notin> set t" "set t \<subseteq> set s" by auto
  then have cs: "c \<in> set s" using c by auto
  have "\<not> is_space c"
  proof
    assume "is_space c"
    then have "c = CHR '' ''" using assms(1) cs by (auto simp: clean_def dest: single_spaced_space)
    then show False using c t(1) by simp
  qed
  then show "\<not> is_space c \<and> c \<notin> set (punct rn) \<and> lower_char c = c \<and> c \<noteq> CHR ''|''"
    using assms(1) cs by (simp add: clean_def)
qed

lemma clean_ends_only: "clean rn s \<Longrightarrow> ends_only (str_split (CHR '' '') s)"
  by (simp add: clean_def single_spaced_ends_only)

lemma clean_join:
  assumes "ends_only ts" "\<forall>t\<in>set ts. clean_token rn t"
  shows "clean rn (str_join '' '' ts)"
proof -
  have "c \<notin> set (punct rn) \<and> lower_char c = c \<and> c \<noteq> CHR ''|''"
    if "c \<in> set (str_join '' '' ts)" for c
  proof -
    from set_str_join [of "'' ''" ts] that
    have "c \<in> set '' '' \<union> (\<Union>t\<in>set ts. set t)" by (rule subsetD)
    then consider "c = CHR '' ''" | t where "t \<in> set ts" "c \<in> set t"
      by auto
    then show ?thesis
    proof cases
      case 1
      then show ?thesis by simp
    next
      case 2
      from assms(2) 2(1) have "clean_token rn t" by (rule bspec)
      then show ?thesis using 2(2) unfolding clean_token_def by blast
    qed
  qed
  then have "\<forall>c\<in>set (str_join '' '' ts).
      c \<notin> set (punct rn) \<and> lower_char c = c \<and> c \<noteq> CHR ''|''"
    by blast
  moreover have "\<forall>t\<in>set ts. \<forall>c\<in>set t. \<not> is_space c"
    using assms(2) unfolding clean_token_def by blast
  with assms(1) have "single_spaced (str_join '' '' ts)"
    by (rule single_spaced_str_join)
  ultimately show ?thesis unfolding clean_def by (rule conjI)
qed

lemma clean_split_join:
  assumes "ts \<noteq> []" "\<forall>t\<in>set ts. clean_token rn t"
  shows "str_split (CHR '' '') (str_join '' '' ts) = ts"
proof -
  have "\<forall>t\<in>set ts. CHR '' '' \<notin> set t"
  proof
    fix t assume "t \<in> set ts"
    with assms(2) have "clean_token rn t" by (rule bspec)
    then have "\<forall>c\<in>set t. \<not> is_space c" unfolding clean_token_def by blast
    then show "CHR '' '' \<notin> set t" using is_space_blank by blast
  qed
  with assms(1) show ?thesis by (rule str_split_join)
qed

lemma clean_fixed:
  assumes "clean rn s"
  shows "translate rn s = s" "whitespace_step s = s" "lower s = s"
proof -
  show "translate rn s = s" using assms by (simp add: translate_def clean_def filter_id_conv)
  show "whitespace_step s = s" using assms by (simp add: whitespace_step_def clean_def single_spaced_fixed)
  show "lower s = s" using assms by (simp add: lower_def clean_def map_idI)
qed

lemma remove_stopwords_clean:
  assumes "clean rn s"
  shows "clean rn (remove_stopwords s)"
    and "\<forall>t\<in>set (str_split (CHR '' '') (remove_stopwords s)). t \<notin> set stopwords"
proof -
  let ?ts = "filter (\<lambda>item. item \<notin> set stopwords) (str_split (CHR '' '') s)"
  have tok: "\<forall>t\<in>set ?ts. clean_token rn t"
    using clean_tokens [OF assms] by simp
  have "ends_only ?ts" using clean_ends_only [OF assms] by (rule ends_only_filter)
  then show "clean rn (remove_stopwords s)"
    using tok unfolding remove_stopwords_def by (rule clean_join)
  show "\<forall>t\<in>set (str_split (CHR '' '') (remove_stopwords s)). t \<notin> set stopwords"
  proof (cases "?ts = []")
    case True
    then have "remove_stopwords s = []" by (simp add: remove_stopwords_def)
    then show ?thesis by (simp add: stopwords_def)
  next
    case False
    then have "str_split (CHR '' '') (remove_stopwords s) = ?ts"
      unfolding remove_stopwords_def using tok by (rule clean_split_join)
    then show ?thesis by simp
  qed
qed

lemma remove_stopwords_fixed:
  assumes "\<forall>t\<in>set (str_split (CHR '' '') s). t \<notin> set stopwords"
  shows "remove_stopwords s = s"
proof -
  have "filter (\<lambda>item. item \<notin> set stopwords) (str_split (CHR '' '') s) = str_split (CHR '' '') s"
    using assms by (simp add: filter_id_conv)
  then show ?thesis by (simp add: remove_stopwords_def str_join_split)
qed

lemma abbreviate_fixed:
  assumes "\<forall>t\<in>set (str_split (CHR '' '') s). map_of abbr t = None"
  shows "abbreviate abbr s = s"
proof -
  have "map (\<lambda>item. case map_of abbr item of Some a \<Rightarrow> a | None \<Rightarrow> item) (str_split (CHR '' '') s)
        = str_split (CHR '' '') s"
    using assms by (intro map_idI) simp
  then show ?thesis by (simp add: abbreviate_def str_join_split)
qed

lemma abbreviate_clean:
  assumes s: "clean rn s"
    and v: "\<forall>(k, v)\<in>set abbr. v \<noteq> [] \<and> clean_token rn v \<and> Q v \<and> map_of abbr v = None"
    and q: "\<forall>t\<in>set (str_split (CHR '' '') s). Q t"
  shows "clean rn (abbreviate abbr s)"
    and "\<forall>t\<in>set (str_split (CHR '' '') (abbreviate abbr s)). Q t \<and> map_of abbr t = None"
proof -
  let ?ab = "\<lambda>item. case map_of abbr item of Some a \<Rightarrow> a | None \<Rightarrow> item"
  let ?ts = "str_split (CHR '' '') s"
  have ab: "clean_token rn (?ab t) \<and> Q (?ab t) \<and> map_of abbr (?ab t) = None \<and> (?ab t = [] \<longrightarrow> t = [])"
    if "t \<in> set ?ts" for t
  proof (cases "map_of abbr t")
    case None
    then show ?thesis using that q clean_tokens [OF s that] by simp
  next
    case (Some w)
    then have "(t, w) \<in> set abbr" by (rule map_of_SomeD)
    then show ?thesis using v Some by auto
  qed
  have tok: "\<forall>t\<in>set (map ?ab ?ts). clean_token rn t" using ab by auto
  have "ends_only (map ?ab ?ts)"
  proof -
    have "\<forall>ys zs. map ?ab ?ts = ys @ [] # zs \<longrightarrow> ys = [] \<or> zs = []"
    proof (intro allI impI)
      fix ys zs assume m: "map ?ab ?ts = ys @ [] # zs"
      then have "\<exists>us vs. ?ts = us @ vs \<and> ys = map ?ab us \<and> [] # zs = map ?ab vs"
        by (simp only: map_eq_append_conv)
      then obtain ys' where "\<exists>vs. ?ts = ys' @ vs \<and> ys = map ?ab ys' \<and> [] # zs = map ?ab vs" ..
      then obtain zs' where c: "?ts = ys' @ zs' \<and> ys = map ?ab ys' \<and> [] # zs = map ?ab zs'" ..
      then have 1: "?ts = ys' @ zs'" "ys = map ?ab ys'" "[] # zs = map ?ab zs'"
        by simp_all
      from 1(3) obtain z zs'' where 2: "zs' = z # zs''" "?ab z = []" "zs = map ?ab zs''"
        by (cases zs') simp_all
      have "z \<in> set ?ts" by (simp add: 1(1) 2(1))
      then have "z = []" using ab 2(2) by blast
      then have "?ts = ys' @ [] # zs''" by (simp add: 1(1) 2(1))
      then have "ys' = [] \<or> zs'' = []"
        using clean_ends_only [OF s] unfolding ends_only_def by blast
      then show "ys = [] \<or> zs = []" using 1(2) 2(3) by auto
    qed
    then show ?thesis by (simp add: ends_only_def)
  qed
  then show "clean rn (abbreviate abbr s)"
    using tok unfolding abbreviate_def by (rule clean_join)
  have "map ?ab ?ts \<noteq> []" by simp
  then have "str_split (CHR '' '') (abbreviate abbr s) = map ?ab ?ts"
    unfolding abbreviate_def using tok by (rule clean_split_join)
  then show "\<forall>t\<in>set (str_split (CHR '' '') (abbreviate abbr s)). Q t \<and> map_of abbr t = None"
    using ab by auto
qed

lemma normalize_clean:
  assumes st: "stable_abbreviations a" and n: "CHR ''|'' \<notin> set n"
  shows "clean (arg_remove_numbers a) (normalize a n)"
    and "truthy (arg_stopwords a) \<Longrightarrow>
         \<forall>t\<in>set (str_split (CHR '' '') (normalize a n)). t \<notin> set stopwords"
    and "truthy (arg_abbreviations a) \<Longrightarrow>
         \<forall>t\<in>set (str_split (CHR '' '') (normalize a n)).
            map_of (the (arg_abbreviations a)) t = None"
proof -
  let ?rn = "arg_remove_numbers a"
  let ?Q = "\<lambda>t. truthy (arg_stopwords a) \<longrightarrow> t \<notin> set stopwords"
  let ?t = "lower (whitespace_step (translate ?rn n))"
  let ?u = "stopword_step a ?t"
  have t: "clean ?rn ?t" using n by (rule clean_first)
  have u: "clean ?rn ?u \<and> (\<forall>t\<in>set (str_split (CHR '' '') ?u). ?Q t)"
  proof (cases "truthy (arg_stopwords a)")
    case True
    then have "?u = remove_stopwords ?t" by (simp add: stopword_step_def)
    then show ?thesis using remove_stopwords_clean [OF t] by simp
  next
    case False
    then have "?u = ?t" by (simp add: stopword_step_def)
    then show ?thesis using t False by simp
  qed
  have w: "normalize a n = abbreviation_step a ?u" by (simp add: normalize_def)
  have "clean ?rn (normalize a n) \<and>
      (\<forall>t\<in>set (str_split (CHR '' '') (normalize a n)). ?Q t) \<and>
      (truthy (arg_abbreviations a) \<longrightarrow>
         (\<forall>t\<in>set (str_split (CHR '' '') (normalize a n)).
            map_of (the (arg_abbreviations a)) t = None))"
  proof (cases "truthy (arg_abbreviations a)")
    case True
    then obtain abbr where abbr: "arg_abbreviations a = Some abbr"
      by (cases "arg_abbreviations a") auto
    have v: "\<forall>(k, v)\<in>set abbr. v \<noteq> [] \<and> clean_token ?rn v \<and> ?Q v \<and> map_of abbr v = None"
      using st abbr by (auto simp: stable_abbreviations_def list_all_iff stable_token_def)
    have eq: "normalize a n = abbreviate abbr ?u"
      using True abbr by (simp add: w abbreviation_step_def)
    from u have 1: "clean ?rn ?u" and 2: "\<forall>t\<in>set (str_split (CHR '' '') ?u). ?Q t"
      by blast+
    from abbreviate_clean [of ?rn ?u abbr ?Q, OF 1 v 2]
    show ?thesis unfolding eq abbr by simp
  next
    case False
    then have "normalize a n = ?u" by (simp add: w abbreviation_step_def)
    then show ?thesis using u False by simp
  qed
  then show "clean (arg_remove_numbers a) (normalize a n)"
    and "truthy (arg_stopwords a) \<Longrightarrow>
         \<forall>t\<in>set (str_split (CHR '' '') (normalize a n)). t \<notin> set stopwords"
    and "truthy (arg_abbreviations a) \<Longrightarrow>
         \<forall>t\<in>set (str_split (CHR '' '') (normalize a n)).
            map_of (the (arg_abbreviations a)) t = None"
    by blast+
qed

lemma normalize_idem:
  assumes st: "stable_abbreviations a" and n: "CHR ''|'' \<notin> set n"
  shows "normalize a (normalize a n) = normalize a n"
    and "CHR ''|'' \<notin> set (normalize a n)"
proof -
  let ?w = "normalize a n"
  note c = normalize_clean [OF st n]
  have s: "stopword_step a ?w = ?w"
  proof (cases "truthy (arg_stopwords a)")
    case True
    then show ?thesis using remove_stopwords_fixed [OF c(2) [OF True]]
      by (simp add: stopword_step_def)
  next
    case False
    then show ?thesis by (simp add: stopword_step_def)
  qed
  have ab: "abbreviation_step a ?w = ?w"
  proof (cases "truthy (arg_abbreviations a)")
    case True
    then show ?thesis using abbreviate_fixed [OF c(3) [OF True]]
      by (simp add: abbreviation_step_def)
  next
    case False
    then show ?thesis by (simp add: abbreviation_step_def)
  qed
  have "normalize a ?w = abbreviation_step a (stopword_step a ?w)"
    unfolding normalize_def [of a ?w] clean_fixed [OF c(1)] by (rule refl)
  then show "normalize a ?w = ?w" by (simp only: s ab)
  show "CHR ''|'' \<notin> set ?w" using c(1) unfolding clean_def by blast
qed

lemma stable_test_a_args: "stable_abbreviations test_a_args"
  by code_simp

section \<open>Properties\<close>

subsection \<open>The blocking key\<close>

text \<open>
  Claim C3 (blocking-key definition): the block key of a normalized name is
  \<open>letter_sum + length * 33\<close>, where \<open>letter_sum\<close> counts A = 1, ..., Z = 26 and 0 for
  every character that is not a letter. The docstring of \<^verbatim>\<open>sum_string\<close> says the same
  (a = 1, b = 2, the sum of all letters), but the method returns the sum of
  \<^verbatim>\<open>ord(c) - 64\<close> over all characters, and the names are lower case at that point: the
  letter a counts 33 and a space counts -32. For the name \<open>a\<close> the column position is
  66, not 34; for \<open>a b\<close> it is 134, not 102.
\<close>

theorem sum_string_lowercase_a:
  "word_position ''a'' = 66 \<and> spec_block_key ''a'' = 34 \<and>
   word_position ''a b'' = 134 \<and> spec_block_key ''a b'' = 102"
  by (simp add: word_position_def sum_string_def spec_block_key_def spec_letter_value_def)

subsection \<open>Stopwords\<close>

text \<open>
  Claim C4 (configured-stopword removal): with a stopword list S in the arguments, exactly
  the tokens in S are dropped. The method \<^verbatim>\<open>remove_stopwords\<close> tests membership in the
  module-level list \<^verbatim>\<open>stopwords\<close> (llc, inc, pllc) instead of \<^verbatim>\<open>self.stopwords\<close>, which
  only switches the step on; its sibling \<^verbatim>\<open>abbreviate\<close> reads \<^verbatim>\<open>self.abbreviations\<close>.
  With S = [corp], the name \<open>abc corp llc\<close> becomes \<open>abc corp\<close>: the token of S stays and
  a token outside S is dropped.
\<close>

theorem remove_stopwords_reads_global:
  "preprocess \<lparr>arg_abbreviations = None, arg_stopwords = Some [''corp''], arg_size = 10000,
      arg_algorithm = ''seq'', arg_remove_numbers = True\<rparr> [''abc corp llc'']
   = Inr [''abc corp'']"
  by (simp add: preprocess_def remove_punc_num_def translate_def punct_def whitespace_step_def
      is_space_def lower_def lower_char_def stopword_step_def remove_stopwords_def stopwords_def
      abbreviation_step_def)

subsection \<open>Conservation of the counts\<close>

text \<open>
  Claim C1 (count conservation), as stated: for every table and every configuration the
  sum of the column \<^verbatim>\<open>party_count\<close> of the output frame equals the sum of
  \<^verbatim>\<open>party_count\<close> over the rows that the run processes. It fails where the sum of a
  group leaves the int64 range: \<^verbatim>\<open>groupby(['party_name'])['party_count'].transform('sum')\<close>
  adds the int64 column with wrap-around. For the two rows \<open>smith\<close> and \<open>Smith\<close> with the
  count \<open>2 ^ 62\<close> each, the one cluster has the count \<open>- 2 ^ 63\<close>, and the counts of the
  rows add up to \<open>2 ^ 63\<close>.
\<close>

theorem count_overflow:
  "RemoveRepetitiveNames scenario_scorers default_args overflow_table =
     Inr \<lparr>self_data =
            [\<lparr>party_name = ''smith'', party_type = Some ''plaintiff'',
              party_address = Some ''1 Main St'', case_type = Some ''eviction'',
              year = Some 2020, party_count = - 9223372036854775808, index = 0,
              position = 394\<rparr>],
          self_dropped_duplicates_count = 9999,
          self_fuzzy_match_count = 0,
          self_output_df =
            [\<lparr>c_party_name = ''smith'', c_aliases = [], c_party_types = [Some ''plaintiff''],
              c_addresses = [Some ''1 Main St''], c_case_types = [Some ''eviction''],
              c_years = [Some 2020], c_party_count = - 9223372036854775808\<rparr>],
          final_removed = [0]\<rparr> \<and>
   sum_list (map sint (map party_count (slice_to overflow_table (arg_size default_args)))) =
     9223372036854775808"
  by code_simp

text \<open>
  Claim C1 as amended: whenever the constructor returns, the sum of the column
  \<^verbatim>\<open>party_count\<close> of the output frame and the sum of \<^verbatim>\<open>party_count\<close> over the rows
  \<^verbatim>\<open>loaded_data[:size]\<close> are the same int64 (they agree modulo \<open>2 ^ 64\<close>), for every pair
  of scorers, every configuration and every table; and they are the same integer when the
  sum of the counts of every normalized name is in the int64 range, as it is when no
  count is negative and all counts together are below \<open>2 ^ 63\<close>. The exact-merge pass
  gives each surviving row the sum of its group, and the cluster loop adds the count of
  every row into exactly one cluster. The constructor returns on every table without a
  vertical bar in a processed name.
\<close>

theorem count_conservation:
  "(\<forall>m. RemoveRepetitiveNames L a loaded_data = Inr m \<longrightarrow>
      (word_of_int (sum_list (map c_party_count (self_output_df m))) :: 64 word) =
        sum_list (map party_count (slice_to loaded_data (arg_size a))) \<and>
      (no_overflow (normalized_frame a loaded_data) \<longrightarrow>
         sum_list (map c_party_count (self_output_df m)) =
         sum_list (map (\<lambda>r. sint (party_count r)) (slice_to loaded_data (arg_size a))))) \<and>
   ((\<forall>r\<in>set (slice_to loaded_data (arg_size a)). 0 \<le> sint (party_count r)) \<and>
    sum_list (map (\<lambda>r. sint (party_count r)) (slice_to loaded_data (arg_size a))) < 2 ^ 63 \<longrightarrow>
      no_overflow (normalized_frame a loaded_data)) \<and>
   (accepted a loaded_data \<longrightarrow> (\<exists>m. RemoveRepetitiveNames L a loaded_data = Inr m))"
proof (intro conjI allI impI)
  fix m assume m: "RemoveRepetitiveNames L a loaded_data = Inr m"
  have loop: "sum_list (map c_party_count (self_output_df m)) =
      sum_list (map (\<lambda>r. sint (party_count r)) (self_data m))"
    using init_data(1,4) [OF m] by (simp add: cluster_loop_mass)
  show "(word_of_int (sum_list (map c_party_count (self_output_df m))) :: 64 word) =
        sum_list (map party_count (slice_to loaded_data (arg_size a)))"
    unfolding loop word_of_int_sum_sint by (rule init_data(3) [OF m])
  assume "no_overflow (normalized_frame a loaded_data)"
  then show "sum_list (map c_party_count (self_output_df m)) =
         sum_list (map (\<lambda>r. sint (party_count r)) (slice_to loaded_data (arg_size a)))"
    unfolding loop by (rule init_conserves [OF m])
next
  assume "(\<forall>r\<in>set (slice_to loaded_data (arg_size a)). 0 \<le> sint (party_count r)) \<and>
    sum_list (map (\<lambda>r. sint (party_count r)) (slice_to loaded_data (arg_size a))) < 2 ^ 63"
  then show "no_overflow (normalized_frame a loaded_data)"
    using input_no_overflow by blast
next
  assume "accepted a loaded_data"
  then show "\<exists>m. RemoveRepetitiveNames L a loaded_data = Inr m" by (rule init_returns)
qed

theorem count_conservation_witness:
  "accepted test_a_args spellings_table \<and>
   map party_count (slice_to spellings_table (arg_size test_a_args)) = [3, 5, 4] \<and>
   map party_name (normalized_frame test_a_args spellings_table) =
     [''smith'', ''jones'', ''smith''] \<and>
   no_overflow (normalized_frame test_a_args spellings_table) \<and>
   (\<exists>m. RemoveRepetitiveNames scenario_scorers test_a_args spellings_table = Inr m \<and>
        sum_list (map c_party_count (self_output_df m)) = 12)"
proof -
  have slice: "slice_to spellings_table (arg_size test_a_args) = spellings_table"
    by (simp add: slice_to_def test_a_args_def spellings_table_def)
  have acc: "accepted test_a_args spellings_table"
    unfolding accepted_def slice by (simp add: spellings_table_def)
  have counts: "map party_count (slice_to spellings_table (arg_size test_a_args)) = [3, 5, 4]"
    unfolding slice by (simp add: spellings_table_def)
  have names: "map party_name (normalized_frame test_a_args spellings_table) =
     [''smith'', ''jones'', ''smith'']"
    by code_simp
  have nonneg: "\<forall>r\<in>set (slice_to spellings_table (arg_size test_a_args)).
      0 \<le> sint (party_count r)"
    unfolding slice by (simp add: spellings_table_def)
  have total: "sum_list (map (\<lambda>r. sint (party_count r))
      (slice_to spellings_table (arg_size test_a_args))) = 12"
    unfolding slice by (simp add: spellings_table_def)
  note cc = count_conservation [of scenario_scorers test_a_args spellings_table]
  from cc nonneg total
  have no: "no_overflow (normalized_frame test_a_args spellings_table)" by simp
  from cc acc obtain m where
    m: "RemoveRepetitiveNames scenario_scorers test_a_args spellings_table = Inr m"
    by blast
  from cc m no have "sum_list (map c_party_count (self_output_df m)) =
      sum_list (map (\<lambda>r. sint (party_count r))
        (slice_to spellings_table (arg_size test_a_args)))"
    by blast
  with total have "sum_list (map c_party_count (self_output_df m)) = 12" by simp
  with m acc counts names no show ?thesis by blast
qed

subsection \<open>Partition and permanent consumption\<close>

text \<open>
  Claim C2 (partition and permanent consumption): a row contributes to a cluster exactly
  where its label is appended to the list \<^verbatim>\<open>removed\<close> (as the anchor of a new cluster or
  as a merged candidate). Whenever the constructor returns, the final list \<^verbatim>\<open>removed\<close>
  has no label twice (a consumed row is never anchored or merged again) and its labels are
  exactly the labels of the working frame after the exact-merge pass (every row is
  consumed, none is dropped); the clusters and the merges together are as many as the
  rows; and in the output frame the names and aliases of all clusters together are the
  names of the working frame, each once: every row is in exactly one cluster. The
  constructor returns on every table without a vertical bar in a processed name.
\<close>

theorem consumed_exactly_once:
  "(\<forall>m. RemoveRepetitiveNames L a loaded_data = Inr m \<longrightarrow>
      distinct (final_removed m) \<and>
      set (final_removed m) = set (map index (self_data m)) \<and>
      int (length (self_output_df m)) + self_fuzzy_match_count m = int (length (self_data m)) \<and>
      distinct (concat (map cluster_names (self_output_df m))) \<and>
      set (concat (map cluster_names (self_output_df m))) = set (map party_name (self_data m))) \<and>
   (accepted a loaded_data \<longrightarrow> (\<exists>m. RemoveRepetitiveNames L a loaded_data = Inr m))"
proof (intro conjI allI impI)
  fix m assume m: "RemoveRepetitiveNames L a loaded_data = Inr m"
  let ?s = "cluster_loop L (arg_algorithm a) (self_data m)"
  show "distinct (final_removed m)"
    using init_data(6) [OF m] by (simp add: cluster_loop_consumed(1))
  show "set (final_removed m) = set (map index (self_data m))"
    using init_data(6) [OF m] by (simp add: cluster_loop_consumed(2))
  have "length (removed ?s) = length (map index (self_data m))"
    using cluster_loop_consumed(1,2) [of L "arg_algorithm a" "self_data m"] init_data(1) [OF m]
    by (metis distinct_card set_map)
  then show "int (length (self_output_df m)) + self_fuzzy_match_count m = int (length (self_data m))"
    using init_data(4,5) [OF m] cluster_loop_consumed(3) [of L "arg_algorithm a" "self_data m"]
    by simp
  show "distinct (concat (map cluster_names (self_output_df m)))"
    using cluster_loop_partition(1) [OF init_data(1,2) [OF m]] init_data(4) [OF m] by simp
  show "set (concat (map cluster_names (self_output_df m))) = set (map party_name (self_data m))"
    using cluster_loop_partition(2) [OF init_data(1,2) [OF m]] init_data(4) [OF m] by simp
next
  assume "accepted a loaded_data"
  then show "\<exists>m. RemoveRepetitiveNames L a loaded_data = Inr m" by (rule init_returns)
qed

theorem consumed_exactly_once_witness:
  "accepted scenario_args scenario_table \<and>
   (\<exists>m. RemoveRepetitiveNames scenario_scorers scenario_args scenario_table = Inr m \<and>
        distinct (final_removed m) \<and>
        set (final_removed m) = set (map index (self_data m)) \<and>
        int (length (self_output_df m)) + self_fuzzy_match_count m = int (length (self_data m)) \<and>
        distinct (concat (map cluster_names (self_output_df m))) \<and>
        set (concat (map cluster_names (self_output_df m))) =
          set (map party_name (self_data m)))"
proof -
  have acc: "accepted scenario_args scenario_table"
    by (simp add: accepted_def scenario_args_def scenario_table_def slice_to_def)
  from consumed_exactly_once [of scenario_scorers scenario_args scenario_table] acc
  show ?thesis by blast
qed

subsection \<open>Matches and aliases\<close>

text \<open>
  Claim C10 (match metric and aliases): whenever the constructor returns, the attribute
  \<^verbatim>\<open>fuzzy_match_count\<close> equals the number of alias entries of all rows of the output
  frame together. The names of the working frame are pairwise distinct after
  \<^verbatim>\<open>drop_duplicates\<close>, so the test \<^verbatim>\<open>not in party_aliases\<close> never fails and every match
  appends one alias. The constructor returns on every table without a vertical bar in a
  processed name.
\<close>

theorem fuzzy_match_count_aliases:
  "(\<forall>m. RemoveRepetitiveNames L a loaded_data = Inr m \<longrightarrow>
      self_fuzzy_match_count m = (\<Sum>c\<leftarrow>self_output_df m. int (length (c_aliases c)))) \<and>
   (accepted a loaded_data \<longrightarrow> (\<exists>m. RemoveRepetitiveNames L a loaded_data = Inr m))"
proof (intro conjI allI impI)
  fix m assume m: "RemoveRepetitiveNames L a loaded_data = Inr m"
  show "self_fuzzy_match_count m = (\<Sum>c\<leftarrow>self_output_df m. int (length (c_aliases c)))"
    using init_data(2,4,5) [OF m] cluster_loop_aliases [of "self_data m" L "arg_algorithm a"]
    by simp
next
  assume "accepted a loaded_data"
  then show "\<exists>m. RemoveRepetitiveNames L a loaded_data = Inr m" by (rule init_returns)
qed

theorem fuzzy_match_count_aliases_witness:
  "accepted scenario_args scenario_table \<and>
   (\<exists>m. RemoveRepetitiveNames scenario_scorers scenario_args scenario_table = Inr m \<and>
        self_fuzzy_match_count m = (\<Sum>c\<leftarrow>self_output_df m. int (length (c_aliases c))))"
proof -
  have acc: "accepted scenario_args scenario_table"
    by (simp add: accepted_def scenario_args_def scenario_table_def slice_to_def)
  from fuzzy_match_count_aliases [of scenario_scorers scenario_args scenario_table] acc
  show ?thesis by auto
qed

subsection \<open>The metric of the exact-merge pass\<close>

text \<open>
  Claim C5 (exact-merge size accounting): the attribute \<^verbatim>\<open>dropped_duplicates_count\<close> is
  the number of rows that the exact-merge pass removed, also for a table with fewer rows
  than \<^verbatim>\<open>size\<close>. The comment in \<^verbatim>\<open>__init__\<close> says the same (``record how many identical
  party_names were identified, combined, and removed''), but the attribute is computed as
  \<^verbatim>\<open>size - new_size\<close> from the parameter \<^verbatim>\<open>size\<close>, not from the number of rows read. For
  a table of two rows with different names and the default \<^verbatim>\<open>size\<close> of 10000, both rows
  survive and the attribute is 9998.
\<close>

theorem dropped_duplicates_count_short_table:
  "\<exists>m. RemoveRepetitiveNames L default_args
          [r1\<lparr>party_name := ''smith''\<rparr>, r2\<lparr>party_name := ''jones''\<rparr>] = Inr m \<and>
        length (self_data m) = 2 \<and>
        self_dropped_duplicates_count m = 9998"
proof -
  have n: "normalize default_args ''smith'' = ''smith''"
    "normalize default_args ''jones'' = ''jones''"
    by code_simp+
  have s: "arg_size default_args = 10000"
    by (simp add: default_args_def)
  show ?thesis
    by (simp add: init_eq normalized_frame_eq accepted_def slice_to_def s Let_def
        read_frame_def with_index_def set_party_name_def n exact_merge_def transform_sum_def group_sum_def add_position_def)
qed

subsection \<open>Scenario A\<close>

text \<open>
  Claim C6 (scenario A): with the abbreviation map apartments -> apt, the stopword list
  [llc] and the algorithm levenshtein, the names \<open>ABC Apartments LLC\<close> and
  \<open>ABC Apts LLC\<close> become \<open>abc apt\<close> and \<open>abc apts\<close>; both survive the exact-merge pass;
  their score is above 0.8; and the cluster loop puts them into one cluster, whose count
  is the sum of the two counts. The other columns of the two rows and the scorer
  \<^verbatim>\<open>seq\<close> are arbitrary; \<^verbatim>\<open>levenshtein\<close> is the edit ratio as the spec describes it.
\<close>

theorem scenario_A:
  "\<exists>m. RemoveRepetitiveNames (L\<lparr>levenshtein := edit_ratio\<rparr>) scenario_args
          [r1\<lparr>party_name := ''ABC Apartments LLC''\<rparr>, r2\<lparr>party_name := ''ABC Apts LLC''\<rparr>] = Inr m \<and>
        map party_name (self_data m) = [''abc apt'', ''abc apts''] \<and>
        score (L\<lparr>levenshtein := edit_ratio\<rparr>) ''levenshtein'' ''abc apt'' ''abc apts'' > 8 / 10 \<and>
        map c_party_name (self_output_df m) = [''abc apt''] \<and>
        map c_aliases (self_output_df m) = [[''abc apts'']] \<and>
        map c_party_count (self_output_df m) = [sint (party_count r1) + sint (party_count r2)]"
  by (simp add: init_eq normalized_frame_eq accepted_def slice_to_def scenario_args_simps
      Let_def read_frame_def with_index_def set_party_name_def normalize_scenario exact_merge_def
      transform_sum_def group_sum_def add_position_def with_position_def word_position_scenario
      cluster_loop_def outer_body_def inner_loop_def test_set_def in_window_def inner_init_def
      inner_body_def score_def edit_ratio_scenario append_new_def emit_def)

subsection \<open>The algorithm selector\<close>

text \<open>
  Claim C9 (fallback of the algorithm selector): for a selector other than \<open>seq\<close> and
  \<open>levenshtein\<close> the score of every pair of names is the value of \<^verbatim>\<open>self.seq\<close>, the
  same as under the selector \<open>seq\<close>; the dispatch has no failing branch, and the whole
  constructor gives the result it gives under \<open>seq\<close>.
\<close>

theorem score_fallback:
  "alg \<noteq> ''seq'' \<Longrightarrow> alg \<noteq> ''levenshtein'' \<Longrightarrow>
   score L alg x y = seq L x y \<and>
   score L alg x y = score L ''seq'' x y \<and>
   RemoveRepetitiveNames L (a\<lparr>arg_algorithm := alg\<rparr>) loaded_data =
     RemoveRepetitiveNames L (a\<lparr>arg_algorithm := ''seq''\<rparr>) loaded_data"
proof -
  assume alg: "alg \<noteq> ''seq''" "alg \<noteq> ''levenshtein''"
  have sc: "score L alg = score L ''seq''"
    using alg by (intro ext) (simp add: score_def)
  have "inner_body L alg = inner_body L ''seq''"
    by (intro ext) (simp add: inner_body_def sc)
  then have "outer_body L alg = outer_body L ''seq''"
    by (intro ext) (simp add: outer_body_def inner_loop_def)
  then have loop: "cluster_loop L alg = cluster_loop L ''seq''"
    by (intro ext) (simp add: cluster_loop_def)
  have "normalize (a\<lparr>arg_algorithm := alg\<rparr>) = normalize (a\<lparr>arg_algorithm := ''seq''\<rparr>)"
    by (intro ext) (simp add: normalize_def stopword_step_def abbreviation_step_def)
  then have pre: "preprocess (a\<lparr>arg_algorithm := alg\<rparr>) =
      preprocess (a\<lparr>arg_algorithm := ''seq''\<rparr>)"
    by (intro ext) (simp add: preprocess_eq)
  have "RemoveRepetitiveNames L (a\<lparr>arg_algorithm := alg\<rparr>) loaded_data =
         RemoveRepetitiveNames L (a\<lparr>arg_algorithm := ''seq''\<rparr>) loaded_data"
    by (simp add: RemoveRepetitiveNames_def pre loop Let_def split: sum.splits)
  moreover have "score L alg x y = seq L x y" using alg by (simp add: score_def)
  ultimately show ?thesis by (simp add: sc)
qed

theorem score_fallback_witness:
  "''ratio'' \<noteq> ''seq'' \<and> ''ratio'' \<noteq> ''levenshtein'' \<and>
   score scenario_scorers ''ratio'' ''abc'' ''abd'' = 0 \<and>
   RemoveRepetitiveNames scenario_scorers (scenario_args\<lparr>arg_algorithm := ''ratio''\<rparr>)
     scenario_table =
   RemoveRepetitiveNames scenario_scorers (scenario_args\<lparr>arg_algorithm := ''seq''\<rparr>)
     scenario_table"
  using score_fallback [of "''ratio''" scenario_scorers "''abc''" "''abd''" scenario_args
      scenario_table]
  by (simp add: scenario_scorers_def)

subsection \<open>The order of the normalizer and the whitespace step\<close>

text \<open>
  Claim C7 (shape of the normalizer), as stated: the steps run in the order punctuation
  and digits, whitespace, lower case, stopwords, abbreviations, and after the whitespace
  step every run of whitespace is one space and the name has no leading or trailing
  whitespace. The last part fails: the step is \<^verbatim>\<open>replace('\s+', ' ', regex=True)\<close> and
  nothing strips the name. The name \<open> abc \<close> keeps its leading and its trailing space
  after the whitespace step and in the normalized name.
\<close>

theorem whitespace_not_trimmed:
  "is_space (hd (whitespace_step (translate True '' abc ''))) \<and>
   is_space (last (whitespace_step (translate True '' abc ''))) \<and>
   preprocess default_args ['' abc ''] = Inr ['' abc '']"
  by code_simp

text \<open>
  Claim C7 as amended: whenever the preprocessing of the column returns, every name has
  gone through the steps in the order punctuation and digits, whitespace, lower case,
  stopwords (when configured), abbreviations (when configured), and it returns on every
  column without a vertical bar in a name. The column of a frame without rows comes back
  as the one name that the steps make of the empty string. After the whitespace step
  every whitespace character is a space that no whitespace follows; a name that begins or
  ends with whitespace begins or ends with one space after the step (the name is not
  trimmed).
\<close>

theorem normalizer_pipeline:
  "(\<forall>out. preprocess a names = Inr out \<longrightarrow>
      out = map (\<lambda>n. abbreviation_step a (stopword_step a (lower (whitespace_step
                  (translate (arg_remove_numbers a) n)))))
              (if names = [] then [[]] else names)) \<and>
   ((\<forall>n\<in>set names. CHR ''|'' \<notin> set n) \<longrightarrow> (\<exists>out. preprocess a names = Inr out)) \<and>
   single_spaced (whitespace_step s) \<and>
   (s \<noteq> [] \<and> is_space (hd s) \<longrightarrow> hd (whitespace_step s) = CHR '' '') \<and>
   (s \<noteq> [] \<and> is_space (last s) \<longrightarrow> last (whitespace_step s) = CHR '' '')"
proof (intro conjI allI impI)
  fix out assume "preprocess a names = Inr out"
  then have "out = map (normalize a) (if names = [] then [[]] else names)"
    unfolding preprocess_eq by (simp split: if_splits)
  then show "out = map (\<lambda>n. abbreviation_step a (stopword_step a (lower (whitespace_step
                  (translate (arg_remove_numbers a) n)))))
              (if names = [] then [[]] else names)"
    unfolding normalize_def .
next
  assume "\<forall>n\<in>set names. CHR ''|'' \<notin> set n"
  then show "\<exists>out. preprocess a names = Inr out" by (simp add: preprocess_eq)
next
  show "single_spaced (whitespace_step s)"
    by (simp add: whitespace_step_def single_spaced_collapse_ws)
next
  assume "s \<noteq> [] \<and> is_space (hd s)"
  then show "hd (whitespace_step s) = CHR '' ''"
    by (simp add: whitespace_step_def hd_collapse_ws)
next
  assume "s \<noteq> [] \<and> is_space (last s)"
  then show "last (whitespace_step s) = CHR '' ''"
    by (simp add: whitespace_step_def last_collapse_ws)
qed

theorem normalizer_pipeline_witness:
  "(\<exists>out. preprocess scenario_args ['' ABC Apts, LLC''] = Inr out \<and>
      out = map (\<lambda>n. abbreviation_step scenario_args (stopword_step scenario_args
                  (lower (whitespace_step (translate (arg_remove_numbers scenario_args) n)))))
              ['' ABC Apts, LLC'']) \<and>
   single_spaced (whitespace_step ''  ABC   Apts LLC  '') \<and>
   hd (whitespace_step ''  ABC   Apts LLC  '') = CHR '' '' \<and>
   last (whitespace_step ''  ABC   Apts LLC  '') = CHR '' ''"
proof -
  note t = normalizer_pipeline [of scenario_args "['' ABC Apts, LLC'']" "''  ABC   Apts LLC  ''"]
  have names: "\<forall>n\<in>set ['' ABC Apts, LLC'']. CHR ''|'' \<notin> set n"
    by simp
  have ends: "''  ABC   Apts LLC  '' \<noteq> [] \<and> is_space (hd ''  ABC   Apts LLC  '')"
    "''  ABC   Apts LLC  '' \<noteq> [] \<and> is_space (last ''  ABC   Apts LLC  '')"
    by simp_all
  from t names obtain out where out: "preprocess scenario_args ['' ABC Apts, LLC''] = Inr out"
    by blast
  from t out have "out = map (\<lambda>n. abbreviation_step scenario_args (stopword_step scenario_args
                  (lower (whitespace_step (translate (arg_remove_numbers scenario_args) n)))))
              (if ['' ABC Apts, LLC''] = [] then [[]] else ['' ABC Apts, LLC''])"
    by blast
  then have "out = map (\<lambda>n. abbreviation_step scenario_args (stopword_step scenario_args
                  (lower (whitespace_step (translate (arg_remove_numbers scenario_args) n)))))
              ['' ABC Apts, LLC'']"
    by (simp only: list.simps if_False)
  with out t ends show ?thesis by blast
qed

subsection \<open>Idempotence of the normalizer\<close>

text \<open>
  Claim C8 (idempotence), as stated: for every configuration, normalizing a normalized
  name returns it unchanged. It fails for an abbreviation dict with a value that is a key:
  with corporation -> corp and corp -> co, the name \<open>Acme Corporation\<close> becomes
  \<open>acme corp\<close>, and \<open>acme corp\<close> becomes \<open>acme co\<close>.
\<close>

theorem chained_abbreviations_not_idempotent:
  "preprocess (default_args\<lparr>arg_abbreviations :=
       Some [(''corporation'', ''corp''), (''corp'', ''co'')]\<rparr>) [''Acme Corporation'']
     = Inr [''acme corp''] \<and>
   preprocess (default_args\<lparr>arg_abbreviations :=
       Some [(''corporation'', ''corp''), (''corp'', ''co'')]\<rparr>) [''acme corp'']
     = Inr [''acme co'']"
  by code_simp

text \<open>
  Claim C8 as amended: for every configuration in which every abbreviation is stable (not
  empty, without whitespace, characters of \<^verbatim>\<open>punct\<close>, capitals or a vertical bar, not a
  key of the dict, and not a stopword of the module-level list when stopwords are
  configured), in particular for every configuration without abbreviations, the
  normalized column is normalized to itself. The notebook's own dict and list are such a
  configuration.
\<close>

theorem normalization_idempotent:
  "stable_abbreviations a \<Longrightarrow> preprocess a names = Inr out \<Longrightarrow> preprocess a out = Inr out"
proof -
  assume st: "stable_abbreviations a" and p: "preprocess a names = Inr out"
  define col where "col = (if names = [] then [[]] else names)"
  from p have bar: "\<forall>n\<in>set names. CHR ''|'' \<notin> set n"
    and out: "out = map (normalize a) col"
    unfolding preprocess_eq col_def by (simp_all split: if_splits)
  have col: "col \<noteq> []" "\<forall>n\<in>set col. CHR ''|'' \<notin> set n"
    using bar by (simp_all add: col_def)
  have 1: "out \<noteq> []" using col(1) out by simp
  have 2: "\<forall>n\<in>set out. CHR ''|'' \<notin> set n"
    using col(2) normalize_idem(2) [OF st] out by auto
  have "map (normalize a) out = out"
    unfolding out using col(2) normalize_idem(1) [OF st] by (simp add: map_idI)
  then show "preprocess a out = Inr out"
    using 1 2 by (simp add: preprocess_eq)
qed

theorem normalization_idempotent_witness:
  "stable_abbreviations test_a_args \<and>
   preprocess test_a_args [''ABC Apartments, LLC'', ''Acme  Holdings Inc.''] =
     Inr [''abc apt'', ''acme hld''] \<and>
   preprocess test_a_args [''abc apt'', ''acme hld''] = Inr [''abc apt'', ''acme hld'']"
proof -
  have p: "preprocess test_a_args [''ABC Apartments, LLC'', ''Acme  Holdings Inc.''] =
     Inr [''abc apt'', ''acme hld'']"
    by code_simp
  from normalization_idempotent [OF stable_test_a_args p] stable_test_a_args p
  show ?thesis by simp
qed

end
